theory Spec2Isabelle
  imports Complex_Main "HOL-Library.Word"
begin

section \<open>Data model of orderbook.cpp\<close>

text \<open>
  Identifiers, quantities and timestamps are \<open>uint64_t\<close>: 64-bit words, whose \<open>+\<close> and
  \<open>-\<close> wrap around as in C++.

  Prices are \<open>double\<close>. The program never does arithmetic on a price: it only compares
  prices (\<open><\<close> in \<open>execute_matching\<close>, \<open>!=\<close> in \<open>amend_order\<close>, the key order of
  \<open>std::map\<close>). Every finite double is a rational number and these comparisons agree
  with the ones on rationals, so a price is a \<open>rat\<close>. NaN, which no comparison orders and
  which \<open>std::map\<close> does not admit as a key, is outside the model.
\<close>

type_synonym u64 = "64 word"
type_synonym price_t = rat

record Order =
  order_id :: u64
  is_buy :: bool
  price :: price_t
  quantity :: u64
  timestamp_ns :: u64

text \<open>\<open>LevelManager\<close>: one price level, with its FIFO queue of order identifiers.\<close>

record LevelManager =
  price_point :: price_t
  order_queue :: "u64 list"
  aggregate_volume :: u64

text \<open>
  The line that \<open>process_match\<close> writes to \<open>std::cout\<close>, as the four values it streams,
  in the order it streams them.
\<close>

record Execution =
  exec_bid_id :: u64
  exec_bid_price :: price_t
  exec_ask_id :: u64
  exec_ask_price :: price_t

text \<open>
  \<open>OrderBook\<close>. A \<open>std::map<double, unique_ptr<LevelManager>>\<close> is the list of its
  entries in ascending key order; \<open>begin()\<close> is the head of the list and \<open>rbegin()\<close>
  its last element. The \<open>unordered_map\<close> of \<open>OrderTracker\<close>s, a wrapper whose only
  member is the order, is a map from identifiers to orders. \<open>executions\<close> collects what
  \<open>process_match\<close> printed, oldest first.
\<close>

type_synonym level_map = "(price_t \<times> LevelManager) list"

record OrderBook =
  bid_levels :: level_map
  ask_levels :: level_map
  active_orders :: "u64 \<rightharpoonup> Order"
  executions :: "Execution list"

definition empty_book :: OrderBook where
  "empty_book = \<lparr>bid_levels = [], ask_levels = [], active_orders = Map.empty, executions = []\<rparr>"

subsection \<open>The operations of std::map the program uses\<close>

definition map_find :: "level_map \<Rightarrow> price_t \<Rightarrow> LevelManager option" where
  "map_find m p = map_of m p"

fun map_insert :: "price_t \<Rightarrow> LevelManager \<Rightarrow> level_map \<Rightarrow> level_map" where
  "map_insert p L [] = [(p, L)]"
| "map_insert p L ((k, v) # m) =
     (if p < k then (p, L) # (k, v) # m
      else if p = k then (p, L) # m
      else (k, v) # map_insert p L m)"

definition map_erase :: "price_t \<Rightarrow> level_map \<Rightarrow> level_map" where
  "map_erase p m = filter (\<lambda>e. fst e \<noteq> p) m"

text \<open>A call of a mutating method through the iterator or pointer of the entry at \<open>p\<close>.\<close>

definition map_modify :: "price_t \<Rightarrow> (LevelManager \<Rightarrow> LevelManager) \<Rightarrow> level_map \<Rightarrow> level_map" where
  "map_modify p f m = map (\<lambda>e. if fst e = p then (fst e, f (snd e)) else e) m"

subsection \<open>LevelManager\<close>

definition new_level :: "price_t \<Rightarrow> LevelManager" where
  "new_level p = \<lparr>price_point = p, order_queue = [], aggregate_volume = 0\<rparr>"

definition push_order :: "u64 \<Rightarrow> u64 \<Rightarrow> LevelManager \<Rightarrow> LevelManager" where
  "push_order oid qty L =
     L\<lparr>order_queue := order_queue L @ [oid], aggregate_volume := aggregate_volume L + qty\<rparr>"

text \<open>\<open>std::find\<close> gives the first occurrence, which \<open>erase\<close> removes.\<close>

definition remove_order :: "u64 \<Rightarrow> u64 \<Rightarrow> LevelManager \<Rightarrow> bool \<times> LevelManager" where
  "remove_order oid qty L =
     (if oid \<in> set (order_queue L)
      then (True, L\<lparr>order_queue := remove1 oid (order_queue L),
                    aggregate_volume := aggregate_volume L - qty\<rparr>)
      else (False, L))"

definition update_volume :: "u64 \<Rightarrow> u64 \<Rightarrow> LevelManager \<Rightarrow> LevelManager" where
  "update_volume old_qty new_qty L =
     L\<lparr>aggregate_volume := aggregate_volume L - old_qty + new_qty\<rparr>"

definition get_volume :: "LevelManager \<Rightarrow> u64" where
  "get_volume L = aggregate_volume L"

definition get_price :: "LevelManager \<Rightarrow> price_t" where
  "get_price L = price_point L"

definition is_empty :: "LevelManager \<Rightarrow> bool" where
  "is_empty L = (order_queue L = [])"

definition get_orders :: "LevelManager \<Rightarrow> u64 list" where
  "get_orders L = order_queue L"

subsection \<open>OrderBook\<close>

definition fetch_side :: "bool \<Rightarrow> OrderBook \<Rightarrow> level_map" where
  "fetch_side buy_side s = (if buy_side then bid_levels s else ask_levels s)"

text \<open>Writing through the reference that \<open>fetch_side\<close> returns.\<close>

definition store_side :: "bool \<Rightarrow> level_map \<Rightarrow> OrderBook \<Rightarrow> OrderBook" where
  "store_side buy_side m s = (if buy_side then s\<lparr>bid_levels := m\<rparr> else s\<lparr>ask_levels := m\<rparr>)"

text \<open>
  \<open>get_or_create_level\<close> returns a pointer to the level at \<open>price\<close>; the model returns
  the book in which that level exists, and the caller reaches the level by its key.
\<close>

definition get_or_create_level :: "bool \<Rightarrow> price_t \<Rightarrow> OrderBook \<Rightarrow> OrderBook" where
  "get_or_create_level buy_side p s =
     (case map_find (fetch_side buy_side s) p of
        None \<Rightarrow> store_side buy_side (map_insert p (new_level p) (fetch_side buy_side s)) s
      | Some L \<Rightarrow> s)"

definition cleanup_level :: "bool \<Rightarrow> price_t \<Rightarrow> OrderBook \<Rightarrow> OrderBook" where
  "cleanup_level buy_side p s =
     (case map_find (fetch_side buy_side s) p of
        None \<Rightarrow> s
      | Some L \<Rightarrow> if is_empty L then store_side buy_side (map_erase p (fetch_side buy_side s)) s
                  else s)"

definition cancel_order :: "u64 \<Rightarrow> OrderBook \<Rightarrow> bool \<times> OrderBook" where
  "cancel_order oid s =
     (case active_orders s oid of
        None \<Rightarrow> (False, s)
      | Some ord \<Rightarrow>
          let s1 = (case map_find (fetch_side (is_buy ord) s) (price ord) of
                      None \<Rightarrow> s
                    | Some L \<Rightarrow>
                        cleanup_level (is_buy ord) (price ord)
                          (store_side (is_buy ord)
                             (map_modify (price ord) (\<lambda>L. snd (remove_order oid (quantity ord) L))
                                (fetch_side (is_buy ord) s)) s))
          in (True, s1\<lparr>active_orders := (active_orders s1)(oid := None)\<rparr>))"

text \<open>
  \<open>process_match\<close>. \<open>bid_order\<close> and \<open>ask_order\<close> are references into the registry, so
  every read and write of them goes through \<open>active_orders\<close>, in the order of the
  source. The last test reads \<open>ask_order.quantity\<close> after \<open>cancel_order(bid_id)\<close>,
  which leaves every other order as it is: the model reads it in the book before that
  call. (With \<open>bid_id = ask_id\<close> the C++ could read an order just destroyed, which is
  undefined; every theorem about \<open>process_match\<close> below is about two different
  identifiers, as the heads of a bid queue and an ask queue are in a well-formed book.)
\<close>

definition ord_quantity :: "OrderBook \<Rightarrow> u64 \<Rightarrow> u64" where
  "ord_quantity s oid = (case active_orders s oid of None \<Rightarrow> 0 | Some ord \<Rightarrow> quantity ord)"

definition ord_price :: "OrderBook \<Rightarrow> u64 \<Rightarrow> price_t" where
  "ord_price s oid = (case active_orders s oid of None \<Rightarrow> 0 | Some ord \<Rightarrow> price ord)"

definition sub_quantity :: "u64 \<Rightarrow> u64 \<Rightarrow> OrderBook \<Rightarrow> OrderBook" where
  "sub_quantity oid q s =
     (case active_orders s oid of
        None \<Rightarrow> s
      | Some ord \<Rightarrow> s\<lparr>active_orders := (active_orders s)(oid \<mapsto> ord\<lparr>quantity := quantity ord - q\<rparr>)\<rparr>)"

definition match_volume :: "price_t \<Rightarrow> u64 \<Rightarrow> level_map \<Rightarrow> level_map" where
  "match_volume p match_qty m =
     (case map_find m p of
        None \<Rightarrow> m
      | Some L \<Rightarrow> map_modify p (update_volume match_qty 0) m)"

definition match_qty :: "OrderBook \<Rightarrow> u64 \<Rightarrow> u64 \<Rightarrow> u64" where
  "match_qty s bid_id ask_id = min (ord_quantity s bid_id) (ord_quantity s ask_id)"

definition process_match :: "u64 \<Rightarrow> u64 \<Rightarrow> OrderBook \<Rightarrow> OrderBook" where
  "process_match bid_id ask_id s =
     (if active_orders s bid_id = None \<or> active_orders s ask_id = None then s
      else
        let mq = match_qty s bid_id ask_id;
            s1 = s\<lparr>executions := executions s @
                   [\<lparr>exec_bid_id = bid_id, exec_bid_price = ord_price s bid_id,
                     exec_ask_id = ask_id, exec_ask_price = ord_price s ask_id\<rparr>]\<rparr>;
            s2 = sub_quantity bid_id mq s1;
            s3 = sub_quantity ask_id mq s2;
            s4 = s3\<lparr>bid_levels := match_volume (ord_price s3 bid_id) mq (bid_levels s3)\<rparr>;
            s5 = s4\<lparr>ask_levels := match_volume (ord_price s4 ask_id) mq (ask_levels s4)\<rparr>;
            s6 = (if ord_quantity s5 bid_id = 0 then snd (cancel_order bid_id s5) else s5);
            s7 = (if ord_quantity s5 ask_id = 0 then snd (cancel_order ask_id s6) else s6)
        in s7)"

text \<open>
  \<open>execute_matching\<close>: the \<open>while\<close> loop. Nothing in the loop itself bounds the number
  of iterations (\<open>process_match\<close> returns without a change when an identifier is not
  registered), so the function is partial: \<open>None\<close> is a loop that never ends.
\<close>

definition best_bid :: "OrderBook \<Rightarrow> LevelManager" where
  "best_bid s = snd (last (bid_levels s))"

definition best_ask :: "OrderBook \<Rightarrow> LevelManager" where
  "best_ask s = snd (hd (ask_levels s))"

partial_function (option) execute_matching :: "OrderBook \<Rightarrow> OrderBook option" where
  "execute_matching s =
     (if bid_levels s \<noteq> [] \<and> ask_levels s \<noteq> [] then
        if get_price (best_bid s) < get_price (best_ask s) then Some s
        else if get_orders (best_bid s) = [] \<or> get_orders (best_ask s) = [] then Some s
        else execute_matching
               (process_match (hd (get_orders (best_bid s))) (hd (get_orders (best_ask s))) s)
      else Some s)"

definition add_order :: "Order \<Rightarrow> OrderBook \<Rightarrow> OrderBook option" where
  "add_order ord s =
     (if active_orders s (order_id ord) \<noteq> None then Some s
      else
        let s1 = get_or_create_level (is_buy ord) (price ord) s;
            s2 = store_side (is_buy ord)
                   (map_modify (price ord) (push_order (order_id ord) (quantity ord))
                      (fetch_side (is_buy ord) s1)) s1;
            s3 = s2\<lparr>active_orders := (active_orders s2)(order_id ord \<mapsto> ord)\<rparr>
        in execute_matching s3)"

definition amend_order :: "u64 \<Rightarrow> price_t \<Rightarrow> u64 \<Rightarrow> OrderBook \<Rightarrow> (bool \<times> OrderBook) option" where
  "amend_order oid new_price new_quantity s =
     (case active_orders s oid of
        None \<Rightarrow> Some (False, s)
      | Some ord \<Rightarrow>
          if price ord \<noteq> new_price then
            (let modified_order = ord\<lparr>price := new_price, quantity := new_quantity\<rparr>
             in case add_order modified_order (snd (cancel_order oid s)) of
                  None \<Rightarrow> None
                | Some s' \<Rightarrow> Some (True, s'))
          else
            (case map_find (fetch_side (is_buy ord) s) (price ord) of
               None \<Rightarrow> Some (True, s)
             | Some L \<Rightarrow>
                 Some (True,
                   (store_side (is_buy ord)
                      (map_modify (price ord) (update_volume (quantity ord) new_quantity)
                         (fetch_side (is_buy ord) s)) s)
                   \<lparr>active_orders := (active_orders s)(oid \<mapsto> ord\<lparr>quantity := new_quantity\<rparr>)\<rparr>)))"

section \<open>The public operations and the books they reach\<close>

text \<open>
  The three mutating methods of the public interface, and the books that a caller can
  produce with them from a freshly constructed \<open>OrderBook\<close>.
\<close>

datatype operation = AddOrder Order | CancelOrder u64 | AmendOrder u64 price_t u64

fun perform :: "operation \<Rightarrow> OrderBook \<Rightarrow> OrderBook option" where
  "perform (AddOrder ord) s = add_order ord s"
| "perform (CancelOrder oid) s = Some (snd (cancel_order oid s))"
| "perform (AmendOrder oid new_price new_quantity) s =
     map_option snd (amend_order oid new_price new_quantity s)"

inductive reachable :: "OrderBook \<Rightarrow> bool" where
  start: "reachable empty_book"
| step: "reachable s \<Longrightarrow> perform op s = Some s' \<Longrightarrow> reachable s'"

text \<open>
  The identifiers queued at a price on one side, oldest first: what \<open>print_book\<close>
  reads with \<open>find\<close> and \<open>get_orders\<close>. A price without a level has no queue.
\<close>

definition queue_at :: "bool \<Rightarrow> price_t \<Rightarrow> OrderBook \<Rightarrow> u64 list" where
  "queue_at buy_side p s =
     (case map_find (fetch_side buy_side s) p of None \<Rightarrow> [] | Some L \<Rightarrow> get_orders L)"

section \<open>The invariant of the book\<close>

text \<open>
  \<open>rests reg b p i\<close>: the registry holds \<open>i\<close> as an order of side \<open>b\<close> at price \<open>p\<close>.
  A level is in order when its key is its price, its queue is non-empty and free of
  repetitions, every queued identifier is registered on that side at that price, and its
  aggregate is the sum, in 64-bit arithmetic, of the queued orders' quantities. A book is
  well-formed when the keys of each side ascend strictly, every level is in order, and
  every registered order is stored under its own identifier and queued in the level of
  its side and price. During matching a well-formed book may be crossed; between public
  operations it is not.
\<close>

definition rests :: "(u64 \<rightharpoonup> Order) \<Rightarrow> bool \<Rightarrow> price_t \<Rightarrow> u64 \<Rightarrow> bool" where
  "rests reg b p i = (\<exists>ord. reg i = Some ord \<and> is_buy ord = b \<and> price ord = p)"

definition qty_of :: "(u64 \<rightharpoonup> Order) \<Rightarrow> u64 \<Rightarrow> u64" where
  "qty_of reg i = (case reg i of None \<Rightarrow> 0 | Some ord \<Rightarrow> quantity ord)"

definition level_ok :: "(u64 \<rightharpoonup> Order) \<Rightarrow> bool \<Rightarrow> price_t \<times> LevelManager \<Rightarrow> bool" where
  "level_ok reg b e =
     (price_point (snd e) = fst e \<and> order_queue (snd e) \<noteq> [] \<and> distinct (order_queue (snd e)) \<and>
      (\<forall>i\<in>set (order_queue (snd e)). rests reg b (fst e) i) \<and>
      aggregate_volume (snd e) = sum_list (map (qty_of reg) (order_queue (snd e))))"

definition side_ok :: "(u64 \<rightharpoonup> Order) \<Rightarrow> bool \<Rightarrow> level_map \<Rightarrow> bool" where
  "side_ok reg b m = (sorted_wrt (<) (map fst m) \<and> (\<forall>e\<in>set m. level_ok reg b e))"

definition reg_ok :: "OrderBook \<Rightarrow> bool" where
  "reg_ok s =
     (finite (dom (active_orders s)) \<and>
      (\<forall>i ord. active_orders s i = Some ord \<longrightarrow>
         order_id ord = i \<and>
         (\<exists>L. (price ord, L) \<in> set (fetch_side (is_buy ord) s) \<and> i \<in> set (order_queue L))))"

definition book_wf :: "OrderBook \<Rightarrow> bool" where
  "book_wf s = ((\<forall>b. side_ok (active_orders s) b (fetch_side b s)) \<and> reg_ok s)"

definition uncrossed :: "OrderBook \<Rightarrow> bool" where
  "uncrossed s = (\<forall>pb\<in>fst ` set (bid_levels s). \<forall>pa\<in>fst ` set (ask_levels s). pb < pa)"

text \<open>The level map of an order's side once the order has left the level \<open>L\<close> it rested in.\<close>

definition drop_order :: "u64 \<Rightarrow> Order \<Rightarrow> LevelManager \<Rightarrow> level_map \<Rightarrow> level_map" where
  "drop_order i ord L m =
     (if remove1 i (order_queue L) = [] then map_erase (price ord) m
      else map_modify (price ord)
             (\<lambda>L. L\<lparr>order_queue := remove1 i (order_queue L),
                     aggregate_volume := aggregate_volume L - quantity ord\<rparr>) m)"

text \<open>The level map of an order's side once \<open>add_order\<close> has queued the order.\<close>

definition enqueue :: "Order \<Rightarrow> level_map \<Rightarrow> level_map" where
  "enqueue ord m =
     (case map_find m (price ord) of
        None \<Rightarrow> map_insert (price ord)
                  (push_order (order_id ord) (quantity ord) (new_level (price ord))) m
      | Some L \<Rightarrow> map_modify (price ord) (push_order (order_id ord) (quantity ord)) m)"

definition queued :: "Order \<Rightarrow> OrderBook \<Rightarrow> OrderBook" where
  "queued ord s =
     (store_side (is_buy ord) (enqueue ord (fetch_side (is_buy ord) s)) s)
       \<lparr>active_orders := (active_orders s)(order_id ord \<mapsto> ord)\<rparr>"

text \<open>One order's quantity replaced, the aggregate of its level rebased by the difference.\<close>

definition set_quantity :: "u64 \<Rightarrow> Order \<Rightarrow> u64 \<Rightarrow> OrderBook \<Rightarrow> OrderBook" where
  "set_quantity i ord nq s =
     (store_side (is_buy ord)
        (map_modify (price ord) (update_volume (quantity ord) nq) (fetch_side (is_buy ord) s)) s)
       \<lparr>active_orders := (active_orders s)(i \<mapsto> ord\<lparr>quantity := nq\<rparr>)\<rparr>"

text \<open>The book after \<open>process_match\<close> has filled both orders, before it cancels any.\<close>

definition filled :: "u64 \<Rightarrow> Order \<Rightarrow> u64 \<Rightarrow> Order \<Rightarrow> OrderBook \<Rightarrow> OrderBook" where
  "filled b bo a ao s =
     (let m = min (quantity bo) (quantity ao) in
      (set_quantity a ao (quantity ao - m) (set_quantity b bo (quantity bo - m) s))
        \<lparr>executions := executions s @
           [\<lparr>exec_bid_id = b, exec_bid_price = price bo,
             exec_ask_id = a, exec_ask_price = price ao\<rparr>]\<rparr>)"

text \<open>How the book at the end of the matching loop relates to the book at its start.\<close>

definition follows :: "OrderBook \<Rightarrow> OrderBook \<Rightarrow> bool" where
  "follows s s' =
     ((\<forall>i o'. active_orders s' i = Some o' \<longrightarrow>
         (\<exists>ord. active_orders s i = Some ord \<and> order_id o' = order_id ord \<and>
            is_buy o' = is_buy ord \<and> price o' = price ord \<and>
            timestamp_ns o' = timestamp_ns ord)) \<and>
      (\<forall>sd p. \<exists>n. queue_at sd p s' = drop n (queue_at sd p s)) \<and>
      (\<exists>es. executions s' = executions s @ es))"

section \<open>The spec's reading of a price-changing amendment\<close>

text \<open>
  The spec's account of a price-changing amendment, in the spec's words: cancel, then
  insert a new order that carries the same identifier, the new price and the new
  quantity, on the side and with the timestamp of the order \<open>ord\<close> it replaces.
\<close>

definition cancel_then_insert ::
    "u64 \<Rightarrow> Order \<Rightarrow> price_t \<Rightarrow> u64 \<Rightarrow> OrderBook \<Rightarrow> (bool \<times> OrderBook) option" where
  "cancel_then_insert oid ord new_price new_quantity s =
     (let (cancelled, s1) = cancel_order oid s
      in map_option (Pair True)
           (add_order \<lparr>order_id = oid, is_buy = is_buy ord, price = new_price,
                        quantity = new_quantity, timestamp_ns = timestamp_ns ord\<rparr> s1))"

section \<open>Example books\<close>

text \<open>
  The orders of the spec's scenarios A and B and the books they lead to: two resting
  bids; the same book with a sell order queued at 50.25 and not yet matched
  (the book that \<open>execute_matching\<close> finds inside \<open>add_order\<close>); that book with a sell
  order of 30 instead of 50; and the two bids with an ask resting above them.
\<close>

definition buy1 :: Order where
  "buy1 = \<lparr>order_id = 1, is_buy = True, price = 201 / 4, quantity = 100, timestamp_ns = 1000000000\<rparr>"
definition buy2 :: Order where
  "buy2 = \<lparr>order_id = 2, is_buy = True, price = 101 / 2, quantity = 200, timestamp_ns = 1000000001\<rparr>"
definition sell3 :: Order where
  "sell3 = \<lparr>order_id = 3, is_buy = False, price = 201 / 4, quantity = 50, timestamp_ns = 1000000006\<rparr>"
definition sell4 :: Order where
  "sell4 = \<lparr>order_id = 4, is_buy = False, price = 51, quantity = 80, timestamp_ns = 1000000003\<rparr>"

definition book_bids :: OrderBook where
  "book_bids =
     \<lparr>bid_levels =
        [(201 / 4, \<lparr>price_point = 201 / 4, order_queue = [1], aggregate_volume = 100\<rparr>),
         (101 / 2, \<lparr>price_point = 101 / 2, order_queue = [2], aggregate_volume = 200\<rparr>)],
      ask_levels = [],
      active_orders = [1 \<mapsto> buy1, 2 \<mapsto> buy2],
      executions = []\<rparr>"

definition book_crossed :: OrderBook where
  "book_crossed =
     \<lparr>bid_levels =
        [(201 / 4, \<lparr>price_point = 201 / 4, order_queue = [1], aggregate_volume = 100\<rparr>),
         (101 / 2, \<lparr>price_point = 101 / 2, order_queue = [2], aggregate_volume = 200\<rparr>)],
      ask_levels =
        [(201 / 4, \<lparr>price_point = 201 / 4, order_queue = [3], aggregate_volume = 50\<rparr>)],
      active_orders = [1 \<mapsto> buy1, 2 \<mapsto> buy2, 3 \<mapsto> sell3],
      executions = []\<rparr>"

definition book_crossed_small :: OrderBook where
  "book_crossed_small =
     \<lparr>bid_levels =
        [(201 / 4, \<lparr>price_point = 201 / 4, order_queue = [1], aggregate_volume = 100\<rparr>),
         (101 / 2, \<lparr>price_point = 101 / 2, order_queue = [2], aggregate_volume = 200\<rparr>)],
      ask_levels =
        [(201 / 4, \<lparr>price_point = 201 / 4, order_queue = [3], aggregate_volume = 30\<rparr>)],
      active_orders = [1 \<mapsto> buy1, 2 \<mapsto> buy2, 3 \<mapsto> sell3\<lparr>quantity := 30\<rparr>],
      executions = []\<rparr>"

definition book_two_sided :: OrderBook where
  "book_two_sided =
     \<lparr>bid_levels =
        [(201 / 4, \<lparr>price_point = 201 / 4, order_queue = [1], aggregate_volume = 100\<rparr>),
         (101 / 2, \<lparr>price_point = 101 / 2, order_queue = [2], aggregate_volume = 200\<rparr>)],
      ask_levels =
        [(51, \<lparr>price_point = 51, order_queue = [4], aggregate_volume = 80\<rparr>)],
      active_orders = [1 \<mapsto> buy1, 2 \<mapsto> buy2, 4 \<mapsto> sell4],
      executions = []\<rparr>"

text \<open>
  The first book with a second bid (id 5) behind order 1 at 50.25, and a sell order large
  enough to fill orders 2 and 1 and a part of order 5.
\<close>

definition buy5 :: Order where
  "buy5 = \<lparr>order_id = 5, is_buy = True, price = 201 / 4, quantity = 200, timestamp_ns = 1000000010\<rparr>"

definition sell6 :: Order where
  "sell6 = \<lparr>order_id = 6, is_buy = False, price = 201 / 4, quantity = 350, timestamp_ns = 1000000011\<rparr>"

definition book_fifo :: OrderBook where
  "book_fifo =
     \<lparr>bid_levels =
        [(201 / 4, \<lparr>price_point = 201 / 4, order_queue = [1, 5], aggregate_volume = 300\<rparr>),
         (101 / 2, \<lparr>price_point = 101 / 2, order_queue = [2], aggregate_volume = 200\<rparr>)],
      ask_levels = [],
      active_orders = [1 \<mapsto> buy1, 2 \<mapsto> buy2, 5 \<mapsto> buy5],
      executions = []\<rparr>"

text \<open>
  Two bids at one price whose quantities, \<open>2 ^ 64 - 1\<close> and 2, add up to more than a
  \<open>uint64_t\<close> holds, and the books that inserting them into the empty book gives.
\<close>

definition big1 :: Order where
  "big1 = \<lparr>order_id = 1, is_buy = True, price = 50, quantity = 18446744073709551615,
            timestamp_ns = 1000000000\<rparr>"

definition big2 :: Order where
  "big2 = \<lparr>order_id = 2, is_buy = True, price = 50, quantity = 2, timestamp_ns = 1000000001\<rparr>"

definition book_big1 :: OrderBook where
  "book_big1 =
     \<lparr>bid_levels =
        [(50, \<lparr>price_point = 50, order_queue = [1],
               aggregate_volume = 18446744073709551615\<rparr>)],
      ask_levels = [],
      active_orders = [1 \<mapsto> big1],
      executions = []\<rparr>"

definition book_big :: OrderBook where
  "book_big =
     \<lparr>bid_levels = [(50, \<lparr>price_point = 50, order_queue = [1, 2], aggregate_volume = 1\<rparr>)],
      ask_levels = [],
      active_orders = [1 \<mapsto> big1, 2 \<mapsto> big2],
      executions = []\<rparr>"

section \<open>Lemmas\<close>

lemma fetch_store [simp]: "fetch_side b (store_side b' m s) = (if b = b' then m else fetch_side b s)"
  by (simp add: fetch_side_def store_side_def)

lemma store_store [simp]: "store_side b m (store_side b m' s) = store_side b m s"
  by (simp add: store_side_def)

lemma active_store [simp]: "active_orders (store_side b m s) = active_orders s"
  by (simp add: store_side_def)

lemma executions_store [simp]: "executions (store_side b m s) = executions s"
  by (simp add: store_side_def)

lemma fetch_active_upd [simp]: "fetch_side b (s\<lparr>active_orders := r\<rparr>) = fetch_side b s"
  by (simp add: fetch_side_def)

lemma fetch_exec_upd [simp]: "fetch_side b (s\<lparr>executions := r\<rparr>) = fetch_side b s"
  by (simp add: fetch_side_def)

lemma keys_distinct: "sorted_wrt (<) (map fst (m::level_map)) \<Longrightarrow> distinct (map fst m)"
  by (simp add: strict_sorted_iff)

lemma find_iff: "sorted_wrt (<) (map fst m) \<Longrightarrow> (map_find m p = Some L) = ((p, L) \<in> set m)"
  by (simp add: map_find_def keys_distinct)

lemma find_None_iff: "(map_find m p = None) = (p \<notin> fst ` set m)"
  by (simp add: map_find_def map_of_eq_None_iff)

lemma keys_modify [simp]: "map fst (map_modify p f m) = map fst m"
  by (simp add: map_modify_def comp_def)

lemma set_modify: "set (map_modify p f m) = (\<lambda>e. if fst e = p then (fst e, f (snd e)) else e) ` set m"
  by (simp add: map_modify_def)

lemma set_insert_sub: "set (map_insert p L m) \<subseteq> insert (p, L) (set m)"
  by (induction m) (auto split: if_splits)

lemma set_insert_new: "p \<notin> fst ` set m \<Longrightarrow> set (map_insert p L m) = insert (p, L) (set m)"
  by (induction m) (auto split: if_splits)

lemma sorted_insert: "sorted_wrt (<) (map fst m) \<Longrightarrow> sorted_wrt (<) (map fst (map_insert p L m))"
proof (induction m)
  case Nil
  show ?case by simp
next
  case (Cons e m)
  have "\<And>x. x \<in> set (map_insert p L m) \<Longrightarrow> x = (p, L) \<or> x \<in> set m"
    using set_insert_sub [of p L m] by auto
  with Cons show ?case
    by (cases e) (fastforce simp: not_less)
qed

lemma set_erase: "set (map_erase p m) = {e \<in> set m. fst e \<noteq> p}"
  by (simp add: map_erase_def)

lemma sorted_erase: "sorted_wrt (<) (map fst m) \<Longrightarrow> sorted_wrt (<) (map fst (map_erase p m))"
  by (induction m) (auto simp: map_erase_def)

lemma same_key: "sorted_wrt (<) (map fst (m::level_map)) \<Longrightarrow> (p, L) \<in> set m \<Longrightarrow> (p, L') \<in> set m \<Longrightarrow> L = L'"
  using map_of_eq_Some_iff [OF keys_distinct, of m p] by (metis option.inject)

lemma sum_upd:
  "distinct xs \<Longrightarrow> i \<in> set xs \<Longrightarrow>
   sum_list (map (f(i := v)) xs) = sum_list (map f xs) - f i + (v::u64)"
  by (induction xs) (auto simp: map_fun_upd)

lemma sum_remove1:
  "i \<in> set xs \<Longrightarrow> sum_list (map f (remove1 i xs)) = sum_list (map f xs) - (f i :: u64)"
  by (simp add: sum_list_map_remove1 [of i xs f])

lemma level_ok_frame:
  assumes "level_ok reg b e" and "\<And>i. i \<in> set (order_queue (snd e)) \<Longrightarrow> reg' i = reg i"
  shows "level_ok reg' b e"
proof -
  have "map (qty_of reg') (order_queue (snd e)) = map (qty_of reg) (order_queue (snd e))"
    using assms(2) by (simp add: qty_of_def)
  then have "sum_list (map (qty_of reg') (order_queue (snd e))) =
             sum_list (map (qty_of reg) (order_queue (snd e)))"
    by (rule arg_cong)
  moreover have "\<And>i. i \<in> set (order_queue (snd e)) \<Longrightarrow> rests reg' b (fst e) i = rests reg b (fst e) i"
    using assms(2) by (simp add: rests_def)
  ultimately show ?thesis
    using assms(1) unfolding level_ok_def by simp
qed

lemma queued_rests:
  "side_ok reg b m \<Longrightarrow> e \<in> set m \<Longrightarrow> i \<in> set (order_queue (snd e)) \<Longrightarrow>
   \<exists>ord. reg i = Some ord \<and> is_buy ord = b \<and> price ord = fst e"
  unfolding side_ok_def level_ok_def rests_def by blast

lemma qty_of_upd: "qty_of (reg(i \<mapsto> ord)) = (qty_of reg)(i := quantity ord)"
  by (auto simp: qty_of_def fun_eq_iff)

lemma qty_of_del: "qty_of (reg(i := None)) = (qty_of reg)(i := 0)"
  by (auto simp: qty_of_def fun_eq_iff)

text \<open>A change of one order's quantity, with the aggregate of its level rebased.\<close>

lemma level_ok_fill:
  assumes ok: "level_ok reg b (p, L)" and act: "reg i = Some ord" and mem: "i \<in> set (order_queue L)"
  shows "level_ok (reg(i \<mapsto> ord\<lparr>quantity := nq\<rparr>)) b
           (p, L\<lparr>aggregate_volume := aggregate_volume L - quantity ord + nq\<rparr>)"
proof -
  have "sum_list (map (qty_of (reg(i \<mapsto> ord\<lparr>quantity := nq\<rparr>))) (order_queue L))
        = sum_list (map (qty_of reg) (order_queue L)) - quantity ord + nq"
    using ok act mem by (simp add: qty_of_upd sum_upd level_ok_def) (simp add: qty_of_def)
  moreover have "\<forall>j\<in>set (order_queue L). rests (reg(i \<mapsto> ord\<lparr>quantity := nq\<rparr>)) b p j"
    using ok act by (auto simp: level_ok_def rests_def)
  ultimately show ?thesis
    using ok by (simp add: level_ok_def)
qed

lemma side_ok_fill_same:
  assumes ok: "side_ok reg (is_buy ord) m" and act: "reg i = Some ord"
    and lvl: "(price ord, L) \<in> set m" and mem: "i \<in> set (order_queue L)"
  shows "side_ok (reg(i \<mapsto> ord\<lparr>quantity := nq\<rparr>)) (is_buy ord)
           (map_modify (price ord)
              (\<lambda>L. L\<lparr>aggregate_volume := aggregate_volume L - quantity ord + nq\<rparr>) m)"
proof -
  let ?reg = "reg(i \<mapsto> ord\<lparr>quantity := nq\<rparr>)"
  let ?f = "\<lambda>L. L\<lparr>aggregate_volume := aggregate_volume L - quantity ord + nq\<rparr>"
  have srt: "sorted_wrt (<) (map fst m)" using ok by (simp add: side_ok_def)
  have "level_ok ?reg (is_buy ord) (if fst e = price ord then (fst e, ?f (snd e)) else e)"
    if e: "e \<in> set m" for e
  proof (cases "fst e = price ord")
    case True
    then have "snd e = L" using same_key [OF srt _ lvl, of "snd e"] e by (cases e) auto
    then have "e = (price ord, L)" using True by (cases e) simp
    moreover have "level_ok reg (is_buy ord) (price ord, L)"
      using ok lvl by (auto simp: side_ok_def)
    ultimately show ?thesis
      using level_ok_fill [where reg = reg and i = i and ord = ord and L = L and nq = nq
          and b = "is_buy ord" and p = "price ord"] act mem by simp
  next
    case False
    have "i \<notin> set (order_queue (snd e))"
      using queued_rests [OF ok e, of i] act False by auto
    moreover have "level_ok reg (is_buy ord) e" using ok e by (simp add: side_ok_def)
    ultimately show ?thesis
      using False by (auto intro: level_ok_frame)
  qed
  then have "\<forall>e'\<in>set (map_modify (price ord) ?f m). level_ok ?reg (is_buy ord) e'"
    unfolding set_modify by blast
  then show ?thesis
    using srt unfolding side_ok_def by simp
qed

lemma side_ok_fill_other:
  assumes ok: "side_ok reg b m" and act: "reg i = Some ord" and ne: "is_buy ord \<noteq> b"
  shows "side_ok (reg(i \<mapsto> ord')) b m"
proof -
  have "level_ok (reg(i \<mapsto> ord')) b e" if e: "e \<in> set m" for e
  proof -
    have "i \<notin> set (order_queue (snd e))"
      using queued_rests [OF ok e, of i] act ne by auto
    moreover have "level_ok reg b e" using ok e by (simp add: side_ok_def)
    ultimately show ?thesis by (auto intro: level_ok_frame)
  qed
  then show ?thesis using ok by (simp add: side_ok_def)
qed

lemma wf_fill:
  assumes wf: "book_wf s" and act: "active_orders s i = Some ord"
    and reg': "active_orders s' = (active_orders s)(i \<mapsto> ord\<lparr>quantity := nq\<rparr>)"
    and side': "fetch_side (is_buy ord) s' =
                  map_modify (price ord)
                    (\<lambda>L. L\<lparr>aggregate_volume := aggregate_volume L - quantity ord + nq\<rparr>)
                    (fetch_side (is_buy ord) s)"
    and other: "fetch_side (\<not> is_buy ord) s' = fetch_side (\<not> is_buy ord) s"
  shows "book_wf s'"
proof -
  let ?f = "\<lambda>L. L\<lparr>aggregate_volume := aggregate_volume L - quantity ord + nq\<rparr>"
  obtain L where lvl: "(price ord, L) \<in> set (fetch_side (is_buy ord) s)"
    and mem: "i \<in> set (order_queue L)"
    using wf act unfolding book_wf_def reg_ok_def by blast
  have sides: "side_ok (active_orders s') b (fetch_side b s')" for b
  proof (cases "b = is_buy ord")
    case True
    then show ?thesis
      using side_ok_fill_same [where reg = "active_orders s" and i = i and ord = ord and L = L
          and nq = nq and m = "fetch_side (is_buy ord) s"] act lvl mem wf
      by (simp add: reg' side' book_wf_def)
  next
    case False
    then have b: "b = (\<not> is_buy ord)" by auto
    show ?thesis
      using side_ok_fill_other [where reg = "active_orders s" and i = i and ord = ord and b = b
          and m = "fetch_side b s"] act wf False
      by (simp add: reg' b other book_wf_def)
  qed
  have "\<exists>L'. (price o', L') \<in> set (fetch_side (is_buy o') s') \<and> j \<in> set (order_queue L')"
    and "order_id o' = j"
    if j: "active_orders s' j = Some o'" for j o'
  proof -
    obtain o0 where o0: "active_orders s j = Some o0" and same: "is_buy o' = is_buy o0"
      "price o' = price o0" "order_id o' = order_id o0"
      using j act by (cases "j = i") (auto simp: reg')
    obtain L0 where l0: "(price o0, L0) \<in> set (fetch_side (is_buy o0) s)" and
      m0: "j \<in> set (order_queue L0)" and id0: "order_id o0 = j"
      using wf o0 unfolding book_wf_def reg_ok_def by blast
    show "order_id o' = j" using same id0 by simp
    show "\<exists>L'. (price o', L') \<in> set (fetch_side (is_buy o') s') \<and> j \<in> set (order_queue L')"
    proof (cases "is_buy o0 = is_buy ord")
      case True
      have "(if price o0 = price ord then (price o0, ?f L0) else (price o0, L0))
              \<in> set (fetch_side (is_buy o') s')"
        using l0 True same by (force simp: side' set_modify)
      then show ?thesis using m0 same by (auto split: if_splits)
    next
      case False
      then have "is_buy o0 = (\<not> is_buy ord)" by auto
      then show ?thesis using l0 m0 same other by auto
    qed
  qed
  moreover have "finite (dom (active_orders s'))"
    using wf by (simp add: reg' book_wf_def reg_ok_def)
  ultimately have "reg_ok s'" by (simp add: reg_ok_def)
  with sides show ?thesis by (simp add: book_wf_def)
qed

lemma find_modify:
  "map_find (map_modify p f m) p' = (if p' = p then map_option f (map_find m p) else map_find m p')"
  by (induction m) (auto simp: map_find_def map_modify_def)

lemma erase_modify: "map_erase p (map_modify p f m) = map_erase p m"
  by (induction m) (auto simp: map_erase_def map_modify_def)

lemma modify_cong:
  "(\<And>L. (p, L) \<in> set m \<Longrightarrow> f L = g L) \<Longrightarrow> map_modify p f m = map_modify p g m"
  unfolding map_modify_def by (rule map_cong) auto

lemma cancel_order_eq:
  assumes act: "active_orders s i = Some ord"
    and srt: "sorted_wrt (<) (map fst (fetch_side (is_buy ord) s))"
    and lvl: "(price ord, L) \<in> set (fetch_side (is_buy ord) s)"
    and mem: "i \<in> set (order_queue L)"
  shows "cancel_order i s =
           (True, (store_side (is_buy ord) (drop_order i ord L (fetch_side (is_buy ord) s)) s)
                    \<lparr>active_orders := (active_orders s)(i := None)\<rparr>)"
proof -
  let ?m = "fetch_side (is_buy ord) s"
  let ?f = "\<lambda>L. snd (remove_order i (quantity ord) L)"
  let ?g = "\<lambda>L. L\<lparr>order_queue := remove1 i (order_queue L),
                     aggregate_volume := aggregate_volume L - quantity ord\<rparr>"
  have fnd: "map_find ?m (price ord) = Some L"
    using srt lvl by (simp add: find_iff)
  have "\<And>L'. (price ord, L') \<in> set ?m \<Longrightarrow> ?f L' = ?g L'"
    using same_key [OF srt _ lvl] mem by (auto simp: remove_order_def)
  then have fg: "map_modify (price ord) ?f ?m = map_modify (price ord) ?g ?m"
    by (rule modify_cong)
  have "cleanup_level (is_buy ord) (price ord) (store_side (is_buy ord) (map_modify (price ord) ?g ?m) s)
        = store_side (is_buy ord) (drop_order i ord L ?m) s"
    using fnd by (simp add: cleanup_level_def find_modify is_empty_def drop_order_def erase_modify)
  then show ?thesis
    using act fnd fg by (simp add: cancel_order_def)
qed

lemma level_ok_remove:
  assumes ok: "level_ok reg b (p, L)" and mem: "i \<in> set (order_queue L)"
    and act: "reg i = Some ord" and ne: "remove1 i (order_queue L) \<noteq> []"
  shows "level_ok (reg(i := None)) b
           (p, L\<lparr>order_queue := remove1 i (order_queue L),
                 aggregate_volume := aggregate_volume L - quantity ord\<rparr>)"
proof -
  let ?q = "remove1 i (order_queue L)"
  have d: "distinct (order_queue L)" using ok by (simp add: level_ok_def)
  then have notin: "i \<notin> set ?q" by simp
  have "map (qty_of (reg(i := None))) ?q = map (qty_of reg) ?q"
    using notin by (simp add: qty_of_del map_fun_upd)
  then have "sum_list (map (qty_of (reg(i := None))) ?q) = sum_list (map (qty_of reg) ?q)"
    by (rule arg_cong)
  also have "\<dots> = sum_list (map (qty_of reg) (order_queue L)) - qty_of reg i"
    using mem by (rule sum_remove1)
  also have "\<dots> = aggregate_volume L - quantity ord"
    using ok act by (simp add: level_ok_def qty_of_def)
  finally have agg: "sum_list (map (qty_of (reg(i := None))) ?q) = aggregate_volume L - quantity ord" .
  have "\<forall>j\<in>set ?q. rests (reg(i := None)) b p j"
    using ok d by (auto simp: level_ok_def rests_def)
  then show ?thesis
    using ok d ne agg by (simp add: level_ok_def)
qed

lemma side_ok_drop_same:
  assumes ok: "side_ok reg (is_buy ord) m" and act: "reg i = Some ord"
    and lvl: "(price ord, L) \<in> set m" and mem: "i \<in> set (order_queue L)"
  shows "side_ok (reg(i := None)) (is_buy ord) (drop_order i ord L m)"
proof -
  let ?reg = "reg(i := None)"
  let ?g = "\<lambda>L. L\<lparr>order_queue := remove1 i (order_queue L),
                     aggregate_volume := aggregate_volume L - quantity ord\<rparr>"
  have srt: "sorted_wrt (<) (map fst m)" using ok by (simp add: side_ok_def)
  have keep: "level_ok ?reg (is_buy ord) e" if e: "e \<in> set m" and ne: "fst e \<noteq> price ord" for e
  proof -
    have "i \<notin> set (order_queue (snd e))"
      using queued_rests [OF ok e, of i] act ne by auto
    moreover have "level_ok reg (is_buy ord) e" using ok e by (simp add: side_ok_def)
    ultimately show ?thesis by (auto intro: level_ok_frame)
  qed
  show ?thesis
  proof (cases "remove1 i (order_queue L) = []")
    case True
    then show ?thesis
      using keep srt by (simp add: drop_order_def side_ok_def sorted_erase set_erase)
  next
    case False
    have "level_ok ?reg (is_buy ord) (if fst e = price ord then (fst e, ?g (snd e)) else e)"
      if e: "e \<in> set m" for e
    proof (cases "fst e = price ord")
      case True
      then have "snd e = L" using same_key [OF srt _ lvl, of "snd e"] e by (cases e) auto
      moreover have "level_ok reg (is_buy ord) (price ord, L)"
        using ok lvl by (auto simp: side_ok_def)
      ultimately show ?thesis
        using level_ok_remove [where reg = reg and i = i and ord = ord and L = L
            and b = "is_buy ord" and p = "price ord"] act mem False True by simp
    next
      case ne: False
      then show ?thesis using keep [OF e] by simp
    qed
    then have "\<forall>e'\<in>set (map_modify (price ord) ?g m). level_ok ?reg (is_buy ord) e'"
      unfolding set_modify by blast
    then show ?thesis
      using srt False unfolding side_ok_def drop_order_def by simp
  qed
qed

lemma side_ok_del_other:
  assumes ok: "side_ok reg b m" and act: "reg i = Some ord" and ne: "is_buy ord \<noteq> b"
  shows "side_ok (reg(i := None)) b m"
proof -
  have "level_ok (reg(i := None)) b e" if e: "e \<in> set m" for e
  proof -
    have "i \<notin> set (order_queue (snd e))"
      using queued_rests [OF ok e, of i] act ne by auto
    moreover have "level_ok reg b e" using ok e by (simp add: side_ok_def)
    ultimately show ?thesis by (auto intro: level_ok_frame)
  qed
  then show ?thesis using ok by (simp add: side_ok_def)
qed

lemma wf_level:
  assumes "book_wf s" and "active_orders s i = Some ord"
  obtains L where "(price ord, L) \<in> set (fetch_side (is_buy ord) s)" and "i \<in> set (order_queue L)"
    and "map_find (fetch_side (is_buy ord) s) (price ord) = Some L"
proof -
  obtain L where l: "(price ord, L) \<in> set (fetch_side (is_buy ord) s)" "i \<in> set (order_queue L)"
    using assms unfolding book_wf_def reg_ok_def by blast
  moreover have "sorted_wrt (<) (map fst (fetch_side (is_buy ord) s))"
    using assms(1) by (simp add: book_wf_def side_ok_def)
  ultimately show ?thesis using that by (simp add: find_iff)
qed

lemma wf_sorted: "book_wf s \<Longrightarrow> sorted_wrt (<) (map fst (fetch_side b s))"
  by (simp add: book_wf_def side_ok_def)

lemma wf_drop:
  assumes wf: "book_wf s" and act: "active_orders s i = Some ord"
    and lvl: "(price ord, L) \<in> set (fetch_side (is_buy ord) s)" and mem: "i \<in> set (order_queue L)"
    and reg': "active_orders s' = (active_orders s)(i := None)"
    and side': "fetch_side (is_buy ord) s' = drop_order i ord L (fetch_side (is_buy ord) s)"
    and other: "fetch_side (\<not> is_buy ord) s' = fetch_side (\<not> is_buy ord) s"
  shows "book_wf s'"
proof -
  let ?g = "\<lambda>L. L\<lparr>order_queue := remove1 i (order_queue L),
                     aggregate_volume := aggregate_volume L - quantity ord\<rparr>"
  have srt: "sorted_wrt (<) (map fst (fetch_side (is_buy ord) s))" using wf by (rule wf_sorted)
  have sides: "side_ok (active_orders s') b (fetch_side b s')" for b
  proof (cases "b = is_buy ord")
    case True
    then show ?thesis
      using side_ok_drop_same [where reg = "active_orders s" and i = i and ord = ord and L = L
          and m = "fetch_side (is_buy ord) s"] act lvl mem wf
      by (simp add: reg' side' book_wf_def)
  next
    case False
    then have b: "b = (\<not> is_buy ord)" by auto
    show ?thesis
      using side_ok_del_other [where reg = "active_orders s" and i = i and ord = ord and b = b
          and m = "fetch_side b s"] act wf False
      by (simp add: reg' b other book_wf_def)
  qed
  have "\<exists>L'. (price o', L') \<in> set (fetch_side (is_buy o') s') \<and> j \<in> set (order_queue L')"
    and "order_id o' = j"
    if j: "active_orders s' j = Some o'" for j o'
  proof -
    have ji: "j \<noteq> i" and o0: "active_orders s j = Some o'"
      using j by (auto simp: reg' split: if_splits)
    obtain L0 where l0: "(price o', L0) \<in> set (fetch_side (is_buy o') s)" and
      m0: "j \<in> set (order_queue L0)" and id0: "order_id o' = j"
      using wf o0 unfolding book_wf_def reg_ok_def by blast
    show "order_id o' = j" by (rule id0)
    show "\<exists>L'. (price o', L') \<in> set (fetch_side (is_buy o') s') \<and> j \<in> set (order_queue L')"
    proof (cases "is_buy o' = is_buy ord")
      case side: True
      show ?thesis
      proof (cases "price o' = price ord")
        case True
        then have "L0 = L" using same_key [OF srt _ lvl, of L0] l0 side by simp
        then have jq: "j \<in> set (remove1 i (order_queue L))" using m0 ji by simp
        then have "remove1 i (order_queue L) \<noteq> []" by auto
        then have "fetch_side (is_buy o') s' = map_modify (price ord) ?g (fetch_side (is_buy ord) s)"
          using side by (simp add: side' drop_order_def)
        moreover have "(price ord, ?g L) \<in> set (map_modify (price ord) ?g (fetch_side (is_buy ord) s))"
          using lvl by (force simp: set_modify)
        ultimately show ?thesis using jq True by auto
      next
        case False
        then have "(price o', L0) \<in> set (fetch_side (is_buy o') s')"
          using l0 side by (force simp: side' drop_order_def set_erase set_modify)
        then show ?thesis using m0 by auto
      qed
    next
      case False
      then have "is_buy o' = (\<not> is_buy ord)" by auto
      then show ?thesis using l0 m0 other by auto
    qed
  qed
  moreover have "finite (dom (active_orders s'))"
    using wf by (simp add: reg' book_wf_def reg_ok_def)
  ultimately have "reg_ok s'" by (simp add: reg_ok_def)
  with sides show ?thesis by (simp add: book_wf_def)
qed

lemma wf_cancel: "book_wf s \<Longrightarrow> book_wf (snd (cancel_order i s))"
proof (cases "active_orders s i")
  case None
  assume "book_wf s"
  then show ?thesis using None by (simp add: cancel_order_def)
next
  case (Some ord)
  assume wf: "book_wf s"
  obtain L where lvl: "(price ord, L) \<in> set (fetch_side (is_buy ord) s)"
    and mem: "i \<in> set (order_queue L)"
    using wf_level [OF wf Some] by blast
  have eq: "snd (cancel_order i s) =
      (store_side (is_buy ord) (drop_order i ord L (fetch_side (is_buy ord) s)) s)
         \<lparr>active_orders := (active_orders s)(i := None)\<rparr>"
    using cancel_order_eq [OF Some wf_sorted [OF wf] lvl mem] by simp
  show ?thesis
    unfolding eq by (rule wf_drop [OF wf Some lvl mem]) simp_all
qed

lemma modify_absent: "p \<notin> fst ` set m \<Longrightarrow> map_modify p f m = m"
  unfolding map_modify_def by (rule map_idI) auto

lemma modify_insert: "p \<notin> fst ` set m \<Longrightarrow> map_modify p f (map_insert p L m) = map_insert p (f L) m"
proof (induction m)
  case Nil
  show ?case by (simp add: map_modify_def)
next
  case (Cons e m)
  obtain k v where e: "e = (k, v)" by (cases e)
  have "map_modify p f ((k, v) # m) = (k, v) # m"
    using Cons.prems e by (intro modify_absent) simp
  moreover have "map_modify p f (map_insert p L m) = map_insert p (f L) m"
    using Cons by simp
  ultimately show ?case
    using Cons.prems e by (simp add: map_modify_def)
qed

lemma add_order_eq:
  "active_orders s (order_id ord) = None \<Longrightarrow> add_order ord s = execute_matching (queued ord s)"
proof (cases "map_find (fetch_side (is_buy ord) s) (price ord)")
  case None
  assume "active_orders s (order_id ord) = None"
  moreover have "price ord \<notin> fst ` set (fetch_side (is_buy ord) s)"
    using None by (simp add: find_None_iff)
  ultimately show ?thesis
    using None
    by (simp add: add_order_def queued_def enqueue_def get_or_create_level_def Let_def
        modify_insert)
next
  case (Some L)
  assume "active_orders s (order_id ord) = None"
  then show ?thesis
    using Some
    by (simp add: add_order_def queued_def enqueue_def get_or_create_level_def Let_def)
qed

lemma level_ok_push:
  assumes ok: "level_ok reg b (p, L)" and act: "reg (order_id ord) = None"
    and b: "is_buy ord = b" and p: "price ord = p"
  shows "level_ok (reg(order_id ord \<mapsto> ord)) b (p, push_order (order_id ord) (quantity ord) L)"
proof -
  let ?i = "order_id ord"
  have notin: "?i \<notin> set (order_queue L)"
    using ok act by (auto simp: level_ok_def rests_def)
  then have "map (qty_of (reg(?i \<mapsto> ord))) (order_queue L) = map (qty_of reg) (order_queue L)"
    by (simp add: qty_of_upd map_fun_upd)
  then have "sum_list (map (qty_of (reg(?i \<mapsto> ord))) (order_queue L)) =
             sum_list (map (qty_of reg) (order_queue L))"
    by (rule arg_cong)
  moreover have "\<forall>j\<in>set (order_queue L). rests (reg(?i \<mapsto> ord)) b p j"
    using ok notin by (auto simp: level_ok_def rests_def)
  moreover have "rests (reg(?i \<mapsto> ord)) b p ?i" "qty_of (reg(?i \<mapsto> ord)) ?i = quantity ord"
    using b p by (simp_all add: rests_def qty_of_def)
  ultimately show ?thesis
    using ok notin by (simp add: level_ok_def push_order_def)
qed

lemma level_ok_new:
  "is_buy ord = b \<Longrightarrow> price ord = p \<Longrightarrow>
   level_ok (reg(order_id ord \<mapsto> ord)) b
     (p, push_order (order_id ord) (quantity ord) (new_level p))"
  by (simp add: level_ok_def push_order_def new_level_def rests_def qty_of_def)

lemma level_ok_fresh:
  assumes ok: "level_ok reg b e" and act: "reg i = None"
  shows "level_ok (reg(i \<mapsto> ord)) b e"
proof -
  have "i \<notin> set (order_queue (snd e))"
    using ok act by (auto simp: level_ok_def rests_def)
  then show ?thesis using ok by (auto intro: level_ok_frame)
qed

lemma side_ok_fresh:
  "side_ok reg b m \<Longrightarrow> reg i = None \<Longrightarrow> side_ok (reg(i \<mapsto> ord)) b m"
  by (simp add: side_ok_def level_ok_fresh)

lemma side_ok_enqueue:
  assumes ok: "side_ok reg (is_buy ord) m" and act: "reg (order_id ord) = None"
  shows "side_ok (reg(order_id ord \<mapsto> ord)) (is_buy ord) (enqueue ord m)"
proof -
  let ?reg = "reg(order_id ord \<mapsto> ord)"
  let ?f = "push_order (order_id ord) (quantity ord)"
  have srt: "sorted_wrt (<) (map fst m)" using ok by (simp add: side_ok_def)
  have old: "\<And>e. e \<in> set m \<Longrightarrow> level_ok ?reg (is_buy ord) e"
    using side_ok_fresh [OF ok act, of ord] by (simp add: side_ok_def)
  show ?thesis
  proof (cases "map_find m (price ord)")
    case None
    then have "price ord \<notin> fst ` set m" by (simp add: find_None_iff)
    then have "set (enqueue ord m) = insert (price ord, ?f (new_level (price ord))) (set m)"
      using None by (simp add: enqueue_def set_insert_new)
    moreover have "sorted_wrt (<) (map fst (enqueue ord m))"
      using None srt by (simp add: enqueue_def sorted_insert)
    ultimately show ?thesis
      using old level_ok_new [of ord "is_buy ord" "price ord" reg] by (simp add: side_ok_def)
  next
    case (Some L)
    have "level_ok ?reg (is_buy ord) (if fst e = price ord then (fst e, ?f (snd e)) else e)"
      if e: "e \<in> set m" for e
    proof (cases "fst e = price ord")
      case True
      have "level_ok reg (is_buy ord) (price ord, snd e)"
        using ok e True by (cases e) (auto simp: side_ok_def)
      then show ?thesis
        using level_ok_push [where reg = reg and ord = ord and L = "snd e"
            and b = "is_buy ord" and p = "price ord"] act True by simp
    next
      case False
      then show ?thesis using old [OF e] by simp
    qed
    then have "\<forall>e'\<in>set (map_modify (price ord) ?f m). level_ok ?reg (is_buy ord) e'"
      unfolding set_modify by blast
    then show ?thesis
      using srt Some unfolding side_ok_def enqueue_def by simp
  qed
qed

lemma enqueue_keeps:
  assumes "(p, L) \<in> set m"
  shows "\<exists>L'. (p, L') \<in> set (enqueue ord m) \<and> set (order_queue L) \<subseteq> set (order_queue L')"
proof (cases "map_find m (price ord)")
  case None
  then have "price ord \<notin> fst ` set m" by (simp add: find_None_iff)
  then show ?thesis using assms None by (auto simp: enqueue_def set_insert_new)
next
  case (Some L0)
  have "(if p = price ord then (p, push_order (order_id ord) (quantity ord) L) else (p, L))
          \<in> set (enqueue ord m)"
    using assms Some by (force simp: enqueue_def set_modify)
  then show ?thesis by (auto simp: push_order_def split: if_splits)
qed

lemma enqueue_has:
  "\<exists>L. (price ord, L) \<in> set (enqueue ord m) \<and> order_id ord \<in> set (order_queue L)"
proof (cases "map_find m (price ord)")
  case None
  then have "price ord \<notin> fst ` set m" by (simp add: find_None_iff)
  then show ?thesis
    using None by (auto simp: enqueue_def set_insert_new push_order_def)
next
  case (Some L0)
  then have "(price ord, L0) \<in> set m" by (auto simp: map_find_def dest: map_of_SomeD)
  then have "(price ord, push_order (order_id ord) (quantity ord) L0) \<in> set (enqueue ord m)"
    using Some by (force simp: enqueue_def set_modify)
  then show ?thesis by (auto simp: push_order_def)
qed

lemma wf_queued:
  assumes wf: "book_wf s" and act: "active_orders s (order_id ord) = None"
  shows "book_wf (queued ord s)"
proof -
  let ?s' = "queued ord s"
  have sides: "side_ok (active_orders ?s') b (fetch_side b ?s')" for b
  proof (cases "b = is_buy ord")
    case True
    then show ?thesis
      using side_ok_enqueue [where reg = "active_orders s" and ord = ord
          and m = "fetch_side (is_buy ord) s"] act wf
      by (simp add: queued_def book_wf_def)
  next
    case False
    then show ?thesis
      using side_ok_fresh [where reg = "active_orders s" and i = "order_id ord" and ord = ord
          and b = b and m = "fetch_side b s"] act wf
      by (simp add: queued_def book_wf_def)
  qed
  have "\<exists>L'. (price o', L') \<in> set (fetch_side (is_buy o') ?s') \<and> j \<in> set (order_queue L')"
    and "order_id o' = j"
    if j: "active_orders ?s' j = Some o'" for j o'
  proof -
    show "order_id o' = j"
    proof (cases "j = order_id ord")
      case True
      then show ?thesis using j by (simp add: queued_def)
    next
      case False
      then have "active_orders s j = Some o'" using j by (simp add: queued_def)
      then show ?thesis using wf unfolding book_wf_def reg_ok_def by blast
    qed
    show "\<exists>L'. (price o', L') \<in> set (fetch_side (is_buy o') ?s') \<and> j \<in> set (order_queue L')"
    proof (cases "j = order_id ord")
      case True
      then have "o' = ord" using j by (simp add: queued_def)
      then show ?thesis
        using enqueue_has [of ord "fetch_side (is_buy ord) s"] True by (simp add: queued_def)
    next
      case False
      then have o0: "active_orders s j = Some o'" using j by (simp add: queued_def)
      obtain L0 where l0: "(price o', L0) \<in> set (fetch_side (is_buy o') s)" and
        m0: "j \<in> set (order_queue L0)"
        using wf o0 unfolding book_wf_def reg_ok_def by blast
      show ?thesis
      proof (cases "is_buy o' = is_buy ord")
        case True
        then show ?thesis
          using enqueue_keeps [OF l0, of ord] m0 by (auto simp: queued_def)
      next
        case False
        then show ?thesis using l0 m0 by (auto simp: queued_def)
      qed
    qed
  qed
  moreover have "finite (dom (active_orders ?s'))"
    using wf by (simp add: queued_def book_wf_def reg_ok_def)
  ultimately have "reg_ok ?s'" by (simp add: reg_ok_def)
  with sides show ?thesis by (simp add: book_wf_def)
qed

lemma wf_set_quantity:
  assumes "book_wf s" and "active_orders s i = Some ord"
  shows "book_wf (set_quantity i ord nq s)"
proof -
  have "update_volume (quantity ord) nq =
        (\<lambda>L. L\<lparr>aggregate_volume := aggregate_volume L - quantity ord + nq\<rparr>)"
    by (simp add: update_volume_def fun_eq_iff)
  then show ?thesis
    using assms by (intro wf_fill [OF assms]) (simp_all add: set_quantity_def)
qed

lemma wf_executions [simp]: "book_wf (s\<lparr>executions := x\<rparr>) = book_wf s"
  by (simp add: book_wf_def reg_ok_def)

lemma active_cleanup [simp]: "active_orders (cleanup_level b p s) = active_orders s"
  by (simp add: cleanup_level_def split: option.splits)

lemma executions_cleanup [simp]: "executions (cleanup_level b p s) = executions s"
  by (simp add: cleanup_level_def split: option.splits)

lemma active_cancel: "active_orders (snd (cancel_order i s)) = (active_orders s)(i := None)"
  by (auto simp: cancel_order_def Let_def fun_eq_iff split: option.splits)

lemma executions_cancel: "executions (snd (cancel_order i s)) = executions s"
  by (simp add: cancel_order_def Let_def split: option.splits)

lemma match_volume_eq: "match_volume p q m = map_modify p (update_volume q 0) m"
proof (cases "map_find m p")
  case None
  then have "p \<notin> fst ` set m" by (simp add: find_None_iff)
  then show ?thesis using None by (simp add: match_volume_def modify_absent)
next
  case (Some L)
  then show ?thesis by (simp add: match_volume_def)
qed

lemma sub_quantity_eq:
  "active_orders s i = Some ord \<Longrightarrow>
   sub_quantity i q s = s\<lparr>active_orders := (active_orders s)(i \<mapsto> ord\<lparr>quantity := quantity ord - q\<rparr>)\<rparr>"
  by (simp add: sub_quantity_def)

lemma update_volume_fill: "update_volume q' (q' - q) = update_volume q 0"
  by (simp add: update_volume_def fun_eq_iff)

lemma process_match_eq:
  assumes b: "active_orders s b = Some bo" and a: "active_orders s a = Some ao"
    and sb: "is_buy bo" and sa: "\<not> is_buy ao"
  shows "process_match b a s =
     (let m = min (quantity bo) (quantity ao);
          s5 = filled b bo a ao s;
          s6 = (if quantity bo - m = 0 then snd (cancel_order b s5) else s5)
      in if quantity ao - m = 0 then snd (cancel_order a s6) else s6)"
proof -
  have ne: "a \<noteq> b" using assms by auto
  let ?m = "min (quantity bo) (quantity ao)"
  let ?e = "executions s @ [\<lparr>exec_bid_id = b, exec_bid_price = price bo,
             exec_ask_id = a, exec_ask_price = price ao\<rparr>]"
  let ?s1 = "s\<lparr>executions := ?e\<rparr>"
  let ?s2 = "sub_quantity b ?m ?s1"
  let ?s3 = "sub_quantity a ?m ?s2"
  let ?s4 = "?s3\<lparr>bid_levels := match_volume (ord_price ?s3 b) ?m (bid_levels ?s3)\<rparr>"
  let ?s5 = "?s4\<lparr>ask_levels := match_volume (ord_price ?s4 a) ?m (ask_levels ?s4)\<rparr>"
  have s2: "?s2 = ?s1\<lparr>active_orders := (active_orders s)(b \<mapsto> bo\<lparr>quantity := quantity bo - ?m\<rparr>)\<rparr>"
    using b by (simp add: sub_quantity_eq)
  have s3: "?s3 = ?s1\<lparr>active_orders := (active_orders s)(b \<mapsto> bo\<lparr>quantity := quantity bo - ?m\<rparr>,
                  a \<mapsto> ao\<lparr>quantity := quantity ao - ?m\<rparr>)\<rparr>"
    unfolding s2 using a ne by (simp add: sub_quantity_eq)
  have s5: "?s5 = filled b bo a ao s"
    unfolding s3 using sb sa ne
    by (simp add: filled_def set_quantity_def ord_price_def match_volume_eq store_side_def
        fetch_side_def Let_def update_volume_fill)
  have q: "ord_quantity ?s5 b = quantity bo - ?m" "ord_quantity ?s5 a = quantity ao - ?m"
    unfolding s3 using ne by (simp_all add: ord_quantity_def)
  have "process_match b a s =
      (let s6 = (if ord_quantity ?s5 b = 0 then snd (cancel_order b ?s5) else ?s5)
       in if ord_quantity ?s5 a = 0 then snd (cancel_order a s6) else s6)"
    using a b by (simp add: process_match_def Let_def match_qty_def ord_quantity_def ord_price_def)
  then show ?thesis
    unfolding q unfolding s5 by (simp add: Let_def)
qed

lemma find_erase: "map_find (map_erase p m) p' = (if p' = p then None else map_find m p')"
  by (induction m) (auto simp: map_find_def map_erase_def)

lemma queue_at_executions [simp]: "queue_at sd p (s\<lparr>executions := x\<rparr>) = queue_at sd p s"
  by (simp add: queue_at_def)

lemma queue_at_set_quantity [simp]: "queue_at sd p (set_quantity i ord nq s) = queue_at sd p s"
  by (cases "map_find (fetch_side sd s) p")
     (auto simp: queue_at_def set_quantity_def find_modify update_volume_def get_orders_def)

lemma queue_at_filled [simp]: "queue_at sd p (filled b bo a ao s) = queue_at sd p s"
  by (simp add: filled_def Let_def)

lemma queue_at_wf:
  "book_wf s \<Longrightarrow> (p, L) \<in> set (fetch_side sd s) \<Longrightarrow> queue_at sd p s = order_queue L"
  using find_iff [OF wf_sorted, of s sd p L] by (simp add: queue_at_def get_orders_def)

lemma queue_at_cancel:
  assumes wf: "book_wf s" and act: "active_orders s i = Some ord"
  shows "queue_at sd p (snd (cancel_order i s)) =
           (if sd = is_buy ord \<and> p = price ord then remove1 i (queue_at sd p s)
            else queue_at sd p s)"
proof -
  obtain L where lvl: "(price ord, L) \<in> set (fetch_side (is_buy ord) s)"
    and mem: "i \<in> set (order_queue L)"
    and fnd: "map_find (fetch_side (is_buy ord) s) (price ord) = Some L"
    using wf_level [OF wf act] by blast
  have eq: "snd (cancel_order i s) =
      (store_side (is_buy ord) (drop_order i ord L (fetch_side (is_buy ord) s)) s)
         \<lparr>active_orders := (active_orders s)(i := None)\<rparr>"
    using cancel_order_eq [OF act wf_sorted [OF wf] lvl mem] by simp
  show ?thesis
    unfolding eq using fnd
    by (auto simp: queue_at_def drop_order_def find_erase find_modify get_orders_def)
qed

lemma queue_at_cancel_none:
  "active_orders s i = None \<Longrightarrow> snd (cancel_order i s) = s"
  by (simp add: cancel_order_def)

lemma queued_active:
  "book_wf s \<Longrightarrow> i \<in> set (queue_at sd p s) \<Longrightarrow>
   \<exists>ord. active_orders s i = Some ord \<and> is_buy ord = sd \<and> price ord = p"
proof -
  assume wf: "book_wf s" and i: "i \<in> set (queue_at sd p s)"
  then obtain L where f: "map_find (fetch_side sd s) p = Some L" and m: "i \<in> set (order_queue L)"
    by (cases "map_find (fetch_side sd s) p") (auto simp: queue_at_def get_orders_def)
  have "(p, L) \<in> set (fetch_side sd s)"
    using f find_iff [OF wf_sorted [OF wf]] by simp
  moreover have "side_ok (active_orders s) sd (fetch_side sd s)"
    using wf by (simp add: book_wf_def)
  ultimately show ?thesis using queued_rests [of "active_orders s" sd _ "(p, L)" i] m by auto
qed

lemma queue_at_distinct: "book_wf s \<Longrightarrow> distinct (queue_at sd p s)"
proof (cases "map_find (fetch_side sd s) p")
  case None
  then show ?thesis by (simp add: queue_at_def)
next
  case (Some L)
  assume wf: "book_wf s"
  have "(p, L) \<in> set (fetch_side sd s)"
    using Some find_iff [OF wf_sorted [OF wf]] by simp
  moreover have "side_ok (active_orders s) sd (fetch_side sd s)"
    using wf by (simp add: book_wf_def)
  ultimately have "distinct (order_queue L)" by (auto simp: side_ok_def level_ok_def)
  then show ?thesis using Some by (simp add: queue_at_def get_orders_def)
qed

lemma sorted_last_max:
  "sorted_wrt (<) (map fst (m::level_map)) \<Longrightarrow> e \<in> set m \<Longrightarrow> fst e \<le> fst (last m)"
proof (induction m)
  case Nil
  then show ?case by simp
next
  case (Cons x m)
  then show ?case by (cases "m = []") (auto simp: less_imp_le)
qed

lemma sorted_hd_min:
  "sorted_wrt (<) (map fst (m::level_map)) \<Longrightarrow> e \<in> set m \<Longrightarrow> fst (hd m) \<le> fst e"
  by (cases m) (auto simp: less_imp_le)

lemma wf_entry:
  "book_wf s \<Longrightarrow> e \<in> set (fetch_side sd s) \<Longrightarrow> level_ok (active_orders s) sd e"
  by (simp add: book_wf_def side_ok_def)

lemma best_bid_ok:
  assumes wf: "book_wf s" and ne: "bid_levels s \<noteq> []"
  shows "last (bid_levels s) \<in> set (fetch_side True s)"
    and "get_price (best_bid s) = fst (last (bid_levels s))"
    and "get_orders (best_bid s) \<noteq> []"
    and "queue_at True (get_price (best_bid s)) s = get_orders (best_bid s)"
proof -
  show m: "last (bid_levels s) \<in> set (fetch_side True s)"
    using ne by (simp add: fetch_side_def)
  have ok: "level_ok (active_orders s) True (last (bid_levels s))"
    using wf_entry [OF wf m] .
  show p: "get_price (best_bid s) = fst (last (bid_levels s))"
    using ok by (simp add: level_ok_def best_bid_def get_price_def)
  show "get_orders (best_bid s) \<noteq> []"
    using ok by (simp add: level_ok_def best_bid_def get_orders_def)
  show "queue_at True (get_price (best_bid s)) s = get_orders (best_bid s)"
    unfolding p using queue_at_wf [OF wf, of "fst (last (bid_levels s))" "snd (last (bid_levels s))" True] m
    by (simp add: best_bid_def get_orders_def)
qed

lemma best_ask_ok:
  assumes wf: "book_wf s" and ne: "ask_levels s \<noteq> []"
  shows "hd (ask_levels s) \<in> set (fetch_side False s)"
    and "get_price (best_ask s) = fst (hd (ask_levels s))"
    and "get_orders (best_ask s) \<noteq> []"
    and "queue_at False (get_price (best_ask s)) s = get_orders (best_ask s)"
proof -
  show m: "hd (ask_levels s) \<in> set (fetch_side False s)"
    using ne by (simp add: fetch_side_def)
  have ok: "level_ok (active_orders s) False (hd (ask_levels s))"
    using wf_entry [OF wf m] .
  show p: "get_price (best_ask s) = fst (hd (ask_levels s))"
    using ok by (simp add: level_ok_def best_ask_def get_price_def)
  show "get_orders (best_ask s) \<noteq> []"
    using ok by (simp add: level_ok_def best_ask_def get_orders_def)
  show "queue_at False (get_price (best_ask s)) s = get_orders (best_ask s)"
    unfolding p using queue_at_wf [OF wf, of "fst (hd (ask_levels s))" "snd (hd (ask_levels s))" False] m
    by (simp add: best_ask_def get_orders_def)
qed

lemma uncrossed_exit:
  assumes wf: "book_wf s"
    and ex: "bid_levels s \<noteq> [] \<and> ask_levels s \<noteq> [] \<longrightarrow> get_price (best_bid s) < get_price (best_ask s)"
  shows "uncrossed s"
proof (cases "bid_levels s \<noteq> [] \<and> ask_levels s \<noteq> []")
  case False
  then show ?thesis by (auto simp: uncrossed_def)
next
  case True
  then have lt: "fst (last (bid_levels s)) < fst (hd (ask_levels s))"
    using ex best_bid_ok(2) [OF wf] best_ask_ok(2) [OF wf] by simp
  have "pb < pa" if "pb \<in> fst ` set (bid_levels s)" "pa \<in> fst ` set (ask_levels s)" for pb pa
  proof -
    have "pb \<le> fst (last (bid_levels s))"
      using that(1) sorted_last_max [OF wf_sorted [OF wf, of True]] by (auto simp: fetch_side_def)
    moreover have "fst (hd (ask_levels s)) \<le> pa"
      using that(2) sorted_hd_min [OF wf_sorted [OF wf, of False]] by (auto simp: fetch_side_def)
    ultimately show ?thesis using lt by simp
  qed
  then show ?thesis by (simp add: uncrossed_def)
qed

text \<open>The end of \<open>process_match\<close>: an order whose quantity has reached zero is cancelled.\<close>

lemma retire:
  assumes wf: "book_wf u" and act: "active_orders u i = Some ord"
    and u': "u' = (if quantity ord = 0 then snd (cancel_order i u) else u)"
  shows "book_wf u'"
    and "active_orders u' = (if quantity ord = 0 then (active_orders u)(i := None) else active_orders u)"
    and "queue_at sd p u' =
           (if quantity ord = 0 \<and> sd = is_buy ord \<and> p = price ord
            then remove1 i (queue_at sd p u) else queue_at sd p u)"
    and "executions u' = executions u"
proof -
  show "book_wf u'" using wf by (simp add: u' wf_cancel)
  show "active_orders u' = (if quantity ord = 0 then (active_orders u)(i := None) else active_orders u)"
    by (simp add: u' active_cancel)
  show "queue_at sd p u' =
           (if quantity ord = 0 \<and> sd = is_buy ord \<and> p = price ord
            then remove1 i (queue_at sd p u) else queue_at sd p u)"
    using queue_at_cancel [OF wf act, of sd p] by (auto simp: u')
  show "executions u' = executions u" by (simp add: u' executions_cancel)
qed

lemma active_set_quantity:
  "active_orders (set_quantity i ord nq s) = (active_orders s)(i \<mapsto> ord\<lparr>quantity := nq\<rparr>)"
  by (simp add: set_quantity_def)

lemma wf_filled:
  assumes wf: "book_wf s" and b: "active_orders s b = Some bo" and a: "active_orders s a = Some ao"
    and ne: "a \<noteq> b"
  shows "book_wf (filled b bo a ao s)"
proof -
  let ?m = "min (quantity bo) (quantity ao)"
  have 1: "book_wf (set_quantity b bo (quantity bo - ?m) s)"
    using wf b by (rule wf_set_quantity)
  have "active_orders (set_quantity b bo (quantity bo - ?m) s) a = Some ao"
    using a ne by (simp add: active_set_quantity)
  with 1 have "book_wf (set_quantity a ao (quantity ao - ?m) (set_quantity b bo (quantity bo - ?m) s))"
    by (rule wf_set_quantity)
  then show ?thesis by (simp add: filled_def Let_def)
qed

lemma active_filled:
  "active_orders (filled b bo a ao s) =
     (active_orders s)(b \<mapsto> bo\<lparr>quantity := quantity bo - min (quantity bo) (quantity ao)\<rparr>,
                       a \<mapsto> ao\<lparr>quantity := quantity ao - min (quantity bo) (quantity ao)\<rparr>)"
  by (simp add: filled_def Let_def active_set_quantity)

lemma executions_filled:
  "executions (filled b bo a ao s) =
     executions s @ [\<lparr>exec_bid_id = b, exec_bid_price = price bo,
                      exec_ask_id = a, exec_ask_price = price ao\<rparr>]"
  by (simp add: filled_def Let_def)

lemma min_sub_zero: "(x::u64) - min x y = 0 \<or> y - min x y = 0"
  by (cases "x \<le> y") (simp_all add: min_def)

text \<open>One iteration of the loop of \<open>execute_matching\<close> in a well-formed book.\<close>

lemma match_iteration:
  assumes wf: "book_wf t" and nb: "bid_levels t \<noteq> []" and na: "ask_levels t \<noteq> []"
    and b: "b = hd (get_orders (best_bid t))" and a: "a = hd (get_orders (best_ask t))"
    and t': "t' = process_match b a t"
  shows "book_wf t'"
    and "dom (active_orders t') \<subset> dom (active_orders t)"
    and "\<And>i o'. active_orders t' i = Some o' \<Longrightarrow>
           \<exists>ord. active_orders t i = Some ord \<and> order_id o' = order_id ord \<and>
             is_buy o' = is_buy ord \<and> price o' = price ord \<and>
             timestamp_ns o' = timestamp_ns ord"
    and "\<And>sd p. queue_at sd p t' =
           (if sd \<and> p = get_price (best_bid t) \<and> active_orders t' b = None
              \<or> \<not> sd \<and> p = get_price (best_ask t) \<and> active_orders t' a = None
            then tl (queue_at sd p t) else queue_at sd p t)"
    and "\<exists>bo ao. active_orders t b = Some bo \<and> active_orders t a = Some ao \<and>
           executions t' = executions t @ [\<lparr>exec_bid_id = b, exec_bid_price = price bo,
                      exec_ask_id = a, exec_ask_price = price ao\<rparr>]"
proof -
  let ?pb = "get_price (best_bid t)" and ?pa = "get_price (best_ask t)"
  have qb: "queue_at True ?pb t = get_orders (best_bid t)" "get_orders (best_bid t) \<noteq> []"
    using best_bid_ok [OF wf nb] by simp_all
  have qa: "queue_at False ?pa t = get_orders (best_ask t)" "get_orders (best_ask t) \<noteq> []"
    using best_ask_ok [OF wf na] by simp_all
  have "b \<in> set (queue_at True ?pb t)" using qb b by simp
  then obtain bo where bo: "active_orders t b = Some bo" "is_buy bo" "price bo = ?pb"
    using queued_active [OF wf] by blast
  have "a \<in> set (queue_at False ?pa t)" using qa a by simp
  then obtain ao where ao: "active_orders t a = Some ao" "\<not> is_buy ao" "price ao = ?pa"
    using queued_active [OF wf] by blast
  have ne: "a \<noteq> b" using bo ao by auto
  let ?m = "min (quantity bo) (quantity ao)"
  let ?bo = "bo\<lparr>quantity := quantity bo - ?m\<rparr>" and ?ao = "ao\<lparr>quantity := quantity ao - ?m\<rparr>"
  define s5 where "s5 = filled b bo a ao t"
  define s6 where "s6 = (if quantity ?bo = 0 then snd (cancel_order b s5) else s5)"
  have t'': "t' = (if quantity ?ao = 0 then snd (cancel_order a s6) else s6)"
    unfolding t' s6_def s5_def
    using process_match_eq [OF bo(1) ao(1) bo(2) ao(2)] by (simp add: Let_def)
  have wf5: "book_wf s5" unfolding s5_def using wf bo(1) ao(1) ne by (rule wf_filled)
  have a5: "active_orders s5 = (active_orders t)(b \<mapsto> ?bo, a \<mapsto> ?ao)"
    by (simp add: s5_def active_filled)
  have b5: "active_orders s5 b = Some ?bo" using ne by (simp add: a5)
  note r6 = retire [OF wf5 b5 s6_def]
  have a6: "active_orders s6 a = Some ?ao" using ne by (simp add: r6(2) a5)
  note r7 = retire [OF r6(1) a6 t'']
  show "book_wf t'" by (rule r7(1))
  have act: "active_orders t' =
      (\<lambda>k. if k = b \<and> quantity ?bo = 0 \<or> k = a \<and> quantity ?ao = 0 then None
            else ((active_orders t)(b \<mapsto> ?bo, a \<mapsto> ?ao)) k)"
    by (auto simp: r7(2) r6(2) a5 fun_eq_iff)
  have gone: "active_orders t' b = None \<longleftrightarrow> quantity ?bo = 0"
    "active_orders t' a = None \<longleftrightarrow> quantity ?ao = 0"
    using ne by (auto simp: act)
  have z: "quantity ?bo = 0 \<or> quantity ?ao = 0"
    using min_sub_zero [of "quantity bo" "quantity ao"] by simp
  have sub: "dom (active_orders t') \<subseteq> dom (active_orders t)"
    using bo(1) ao(1) by (auto simp: act split: if_splits)
  have "b \<notin> dom (active_orders t') \<or> a \<notin> dom (active_orders t')"
    using z gone by auto
  then show "dom (active_orders t') \<subset> dom (active_orders t)"
    using sub bo(1) ao(1) by auto
  show "\<exists>ord. active_orders t i = Some ord \<and> order_id o' = order_id ord \<and>
             is_buy o' = is_buy ord \<and> price o' = price ord \<and>
             timestamp_ns o' = timestamp_ns ord"
    if "active_orders t' i = Some o'" for i o'
    using that bo(1) ao(1) by (auto simp: act split: if_splits)
  show "\<exists>bo ao. active_orders t b = Some bo \<and> active_orders t a = Some ao \<and>
           executions t' = executions t @ [\<lparr>exec_bid_id = b, exec_bid_price = price bo,
                      exec_ask_id = a, exec_ask_price = price ao\<rparr>]"
    using bo(1) ao(1) by (simp add: r7(4) r6(4) s5_def executions_filled)
  have hb: "remove1 b (queue_at True ?pb t) = tl (queue_at True ?pb t)"
    using qb b by (cases "get_orders (best_bid t)") simp_all
  have ha: "remove1 a (queue_at False ?pa t) = tl (queue_at False ?pa t)"
    using qa a by (cases "get_orders (best_ask t)") simp_all
  show "queue_at sd p t' =
           (if sd \<and> p = ?pb \<and> active_orders t' b = None
              \<or> \<not> sd \<and> p = ?pa \<and> active_orders t' a = None
            then tl (queue_at sd p t) else queue_at sd p t)" for sd p
    unfolding gone r7(3) r6(3) s5_def queue_at_filled
    using bo(2,3) ao(2,3) hb ha by auto
qed

lemma follows_refl: "follows s s"
proof -
  have "\<forall>sd p. \<exists>n. queue_at sd p s = drop n (queue_at sd p s)"
    by (intro allI exI [of _ 0]) simp
  then show ?thesis by (simp add: follows_def)
qed

lemma follows_trans:
  assumes "follows s t" and "follows t u"
  shows "follows s u"
proof -
  have "\<exists>ord. active_orders s i = Some ord \<and> order_id o' = order_id ord \<and>
            is_buy o' = is_buy ord \<and> price o' = price ord \<and>
            timestamp_ns o' = timestamp_ns ord"
    if au: "active_orders u i = Some o'" for i o'
  proof -
    obtain o1 where 1: "active_orders t i = Some o1" "order_id o' = order_id o1"
      "is_buy o' = is_buy o1" "price o' = price o1" "timestamp_ns o' = timestamp_ns o1"
      using assms(2) au unfolding follows_def by blast
    obtain o0 where 0: "active_orders s i = Some o0" "order_id o1 = order_id o0"
      "is_buy o1 = is_buy o0" "price o1 = price o0" "timestamp_ns o1 = timestamp_ns o0"
      using assms(1) 1(1) unfolding follows_def by blast
    show ?thesis using 0 1 by simp
  qed
  moreover have "\<exists>n. queue_at sd p u = drop n (queue_at sd p s)" for sd p
  proof -
    obtain n where "queue_at sd p u = drop n (queue_at sd p t)"
      using assms(2) unfolding follows_def by blast
    moreover obtain k where "queue_at sd p t = drop k (queue_at sd p s)"
      using assms(1) unfolding follows_def by blast
    ultimately have "queue_at sd p u = drop (k + n) (queue_at sd p s)" by (simp add: add.commute)
    then show ?thesis ..
  qed
  moreover have "\<exists>es. executions u = executions s @ es"
    using assms unfolding follows_def by (metis append.assoc)
  ultimately show ?thesis unfolding follows_def by blast
qed

lemma follows_iteration:
  assumes wf: "book_wf t" and nb: "bid_levels t \<noteq> []" and na: "ask_levels t \<noteq> []"
  shows "follows t (process_match (hd (get_orders (best_bid t))) (hd (get_orders (best_ask t))) t)"
proof -
  note it = match_iteration [OF wf nb na refl refl refl]
  have "\<exists>n. queue_at sd p (process_match (hd (get_orders (best_bid t))) (hd (get_orders (best_ask t))) t)
          = drop n (queue_at sd p t)" for sd p
  proof -
    have "queue_at sd p (process_match (hd (get_orders (best_bid t))) (hd (get_orders (best_ask t))) t)
            = drop 1 (queue_at sd p t) \<or>
          queue_at sd p (process_match (hd (get_orders (best_bid t))) (hd (get_orders (best_ask t))) t)
            = drop 0 (queue_at sd p t)"
      unfolding it(4) [of sd p] by (simp add: drop_Suc)
    then show ?thesis by blast
  qed
  moreover have "\<exists>es. executions (process_match (hd (get_orders (best_bid t))) (hd (get_orders (best_ask t))) t)
      = executions t @ es"
    using it(5) by blast
  ultimately show ?thesis
    unfolding follows_def using it(3) by blast
qed

lemma matching_terminates:
  "book_wf s \<Longrightarrow> \<exists>s'. execute_matching s = Some s' \<and> book_wf s' \<and> uncrossed s' \<and> follows s s'"
proof (induction "card (dom (active_orders s))" arbitrary: s rule: less_induct)
  case less
  note wf = \<open>book_wf s\<close>
  show ?case
  proof (cases "bid_levels s \<noteq> [] \<and> ask_levels s \<noteq> [] \<and>
                \<not> get_price (best_bid s) < get_price (best_ask s)")
    case False
    then have "execute_matching s = Some s"
      by (subst execute_matching.simps) auto
    moreover have "uncrossed s"
      using False by (intro uncrossed_exit [OF wf]) auto
    ultimately show ?thesis using wf follows_refl by blast
  next
    case True
    define t where "t = process_match (hd (get_orders (best_bid s))) (hd (get_orders (best_ask s))) s"
    have nb: "bid_levels s \<noteq> []" and na: "ask_levels s \<noteq> []" using True by auto
    note it = match_iteration [OF wf nb na refl refl t_def]
    have "get_orders (best_bid s) \<noteq> []" "get_orders (best_ask s) \<noteq> []"
      using best_bid_ok(3) [OF wf nb] best_ask_ok(3) [OF wf na] by auto
    then have step: "execute_matching s = execute_matching t"
      using True by (subst execute_matching.simps) (simp add: t_def)
    have "finite (dom (active_orders s))" using wf by (simp add: book_wf_def reg_ok_def)
    then have "card (dom (active_orders t)) < card (dom (active_orders s))"
      using it(2) by (rule psubset_card_mono)
    then obtain s' where s': "execute_matching t = Some s'" "book_wf s'" "uncrossed s'" "follows t s'"
      using less.hyps [OF _ it(1)] by blast
    have "follows s t" unfolding t_def using wf nb na by (rule follows_iteration)
    then have "follows s s'" using s'(4) by (rule follows_trans)
    then show ?thesis using step s' by auto
  qed
qed

lemma wf_empty: "book_wf empty_book"
  by (simp add: book_wf_def side_ok_def reg_ok_def empty_book_def fetch_side_def)

lemma uncrossed_empty: "uncrossed empty_book"
  by (simp add: uncrossed_def empty_book_def)

lemma uncrossed_keys:
  assumes "uncrossed s"
    and "fst ` set (bid_levels s') \<subseteq> fst ` set (bid_levels s)"
    and "fst ` set (ask_levels s') \<subseteq> fst ` set (ask_levels s)"
  shows "uncrossed s'"
  using assms unfolding uncrossed_def by blast

lemma keys_erase: "fst ` set (map_erase p m) \<subseteq> fst ` set m"
  by (auto simp: set_erase)

lemma keys_modify_set: "fst ` set (map_modify p f m) = fst ` set m"
  using keys_modify [of p f m] by (metis set_map)

lemma keys_cleanup: "fst ` set (fetch_side sd (cleanup_level b p s)) \<subseteq> fst ` set (fetch_side sd s)"
  using keys_erase by (auto simp: cleanup_level_def split: option.splits)

lemma keys_cancel:
  "fst ` set (fetch_side sd (snd (cancel_order i s))) \<subseteq> fst ` set (fetch_side sd s)"
proof (cases "active_orders s i")
  case None
  then show ?thesis by (simp add: cancel_order_def)
next
  case (Some ord)
  show ?thesis
  proof (cases "map_find (fetch_side (is_buy ord) s) (price ord)")
    case None
    then show ?thesis using Some by (simp add: cancel_order_def)
  next
    case (Some L)
    let ?u = "store_side (is_buy ord)
               (map_modify (price ord) (\<lambda>L. snd (remove_order i (quantity ord) L))
                  (fetch_side (is_buy ord) s)) s"
    have "fst ` set (fetch_side sd ?u) = fst ` set (fetch_side sd s)"
      by (simp add: keys_modify_set)
    then have "fst ` set (fetch_side sd (cleanup_level (is_buy ord) (price ord) ?u))
                 \<subseteq> fst ` set (fetch_side sd s)"
      using keys_cleanup [of sd "is_buy ord" "price ord" ?u] by simp
    then show ?thesis
      using Some \<open>active_orders s i = Some ord\<close> by (simp add: cancel_order_def)
  qed
qed

lemma uncrossed_cancel:
  assumes "uncrossed s"
  shows "uncrossed (snd (cancel_order i s))"
  using assms
proof (rule uncrossed_keys)
  show "fst ` set (bid_levels (snd (cancel_order i s))) \<subseteq> fst ` set (bid_levels s)"
    using keys_cancel [of True i s] by (simp add: fetch_side_def)
  show "fst ` set (ask_levels (snd (cancel_order i s))) \<subseteq> fst ` set (ask_levels s)"
    using keys_cancel [of False i s] by (simp add: fetch_side_def)
qed

lemma uncrossed_set_quantity: "uncrossed s \<Longrightarrow> uncrossed (set_quantity i ord nq s)"
  by (cases "is_buy ord")
     (simp_all add: uncrossed_def set_quantity_def store_side_def fetch_side_def keys_modify_set)

lemma amend_order_same:
  "active_orders s i = Some ord \<Longrightarrow> map_find (fetch_side (is_buy ord) s) (price ord) = Some L \<Longrightarrow>
   amend_order i (price ord) nq s = Some (True, set_quantity i ord nq s)"
  by (simp add: amend_order_def set_quantity_def)

lemma amend_order_moved:
  "active_orders s i = Some ord \<Longrightarrow> price ord \<noteq> np \<Longrightarrow>
   amend_order i np nq s =
     map_option (Pair True) (add_order (ord\<lparr>price := np, quantity := nq\<rparr>) (snd (cancel_order i s)))"
  by (simp add: amend_order_def Let_def split: option.splits)

text \<open>\<open>add_order\<close> on a well-formed book returns, and what it returns.\<close>

lemma add_order_total:
  assumes wf: "book_wf s"
  shows "\<exists>s'. add_order ord s = Some s' \<and> book_wf s' \<and> (uncrossed s \<longrightarrow> uncrossed s') \<and>
           (if active_orders s (order_id ord) \<noteq> None then s' = s
            else follows (queued ord s) s')"
proof (cases "active_orders s (order_id ord)")
  case (Some x)
  then show ?thesis using wf by (simp add: add_order_def)
next
  case None
  have "book_wf (queued ord s)" using wf None by (rule wf_queued)
  then obtain s' where "execute_matching (queued ord s) = Some s'" "book_wf s'" "uncrossed s'"
    "follows (queued ord s) s'"
    using matching_terminates by blast
  then show ?thesis using None by (simp add: add_order_eq)
qed

lemma amend_order_total:
  assumes wf: "book_wf s"
  shows "\<exists>r s'. amend_order i np nq s = Some (r, s') \<and> book_wf s' \<and> (uncrossed s \<longrightarrow> uncrossed s')"
proof (cases "active_orders s i")
  case None
  then show ?thesis using wf by (auto simp: amend_order_def)
next
  case (Some ord)
  show ?thesis
  proof (cases "price ord = np")
    case True
    obtain L where "map_find (fetch_side (is_buy ord) s) (price ord) = Some L"
      using wf_level [OF wf Some] by blast
    then have "amend_order i np nq s = Some (True, set_quantity i ord nq s)"
      using amend_order_same [OF Some] True by simp
    then show ?thesis
      using wf_set_quantity [OF wf Some] uncrossed_set_quantity by auto
  next
    case False
    let ?u = "snd (cancel_order i s)"
    have "book_wf ?u" using wf by (rule wf_cancel)
    then obtain s' where s': "add_order (ord\<lparr>price := np, quantity := nq\<rparr>) ?u = Some s'"
      "book_wf s'" "uncrossed ?u \<longrightarrow> uncrossed s'"
      using add_order_total by blast
    then have "amend_order i np nq s = Some (True, s')"
      using amend_order_moved [OF Some False] by simp
    then show ?thesis using s' uncrossed_cancel by auto
  qed
qed

lemma perform_total:
  assumes wf: "book_wf s"
  shows "\<exists>s'. perform op s = Some s' \<and> book_wf s' \<and> (uncrossed s \<longrightarrow> uncrossed s')"
proof (cases op)
  case (AddOrder ord)
  then show ?thesis using add_order_total [OF wf, of ord] by auto
next
  case (CancelOrder i)
  then show ?thesis using wf_cancel [OF wf] uncrossed_cancel by simp
next
  case (AmendOrder i np nq)
  then show ?thesis using amend_order_total [OF wf, of i np nq] by auto
qed

lemma reachable_inv: "reachable s \<Longrightarrow> book_wf s \<and> uncrossed s"
proof (induction rule: reachable.induct)
  case start
  show ?case by (simp add: wf_empty uncrossed_empty)
next
  case (step s op s')
  then show ?case using perform_total [of s op] by auto
qed

section \<open>Evaluation of the example books\<close>

lemmas ops_defs =
  add_order_def cancel_order_def amend_order_def process_match_def get_or_create_level_def
  cleanup_level_def fetch_side_def store_side_def map_find_def map_erase_def map_modify_def
  new_level_def push_order_def remove_order_def update_volume_def get_price_def is_empty_def
  get_orders_def ord_quantity_def ord_price_def sub_quantity_def match_volume_def match_qty_def
  best_bid_def best_ask_def Let_def

lemmas example_defs =
  buy1_def buy2_def sell3_def sell4_def book_bids_def book_crossed_def book_crossed_small_def
  book_two_sided_def empty_book_def

lemma add_buy1: "add_order buy1 empty_book =
  Some \<lparr>bid_levels = [(201 / 4, \<lparr>price_point = 201 / 4, order_queue = [1], aggregate_volume = 100\<rparr>)],
      ask_levels = [], active_orders = [1 \<mapsto> buy1], executions = []\<rparr>"
  by (simp add: example_defs ops_defs execute_matching.simps)

lemma add_buy2: "add_order buy2
   \<lparr>bid_levels = [(201 / 4, \<lparr>price_point = 201 / 4, order_queue = [1], aggregate_volume = 100\<rparr>)],
      ask_levels = [], active_orders = [1 \<mapsto> buy1], executions = []\<rparr> = Some book_bids"
  by (simp add: example_defs ops_defs execute_matching.simps)

lemma add_sell4: "add_order sell4 book_bids = Some book_two_sided"
  by (simp add: example_defs ops_defs execute_matching.simps)

lemma reachable_bids: "reachable book_bids"
proof -
  have "perform (AddOrder buy2) (the (perform (AddOrder buy1) empty_book)) = Some book_bids"
    by (simp add: add_buy1 add_buy2)
  moreover have "reachable (the (perform (AddOrder buy1) empty_book))"
    by (rule reachable.step [OF reachable.start, of "AddOrder buy1"]) (simp add: add_buy1)
  ultimately show ?thesis by (rule reachable.step [rotated])
qed

lemma reachable_two_sided: "reachable book_two_sided"
  by (rule reachable.step [OF reachable_bids, of "AddOrder sell4"]) (simp add: add_sell4)

lemma queued_crossed: "queued sell3 book_bids = book_crossed"
  by (simp add: queued_def enqueue_def example_defs ops_defs)

lemma wf_crossed: "book_wf book_crossed"
  using wf_queued [of book_bids sell3] reachable_inv [OF reachable_bids]
  by (simp add: queued_crossed) (simp add: example_defs)

section \<open>The claims\<close>

text \<open>
  C7. \<open>add_order\<close> with an identifier that is already registered returns the book as it
  is: registry, both sides, every queue and aggregate, and the executions printed so far.
  The matching loop is not run: the equation holds for every book, also for a crossed
  one, which the loop would change.
\<close>

theorem add_order_duplicate_noop:
  "active_orders s (order_id ord) \<noteq> None \<Longrightarrow> add_order ord s = Some s"
  by (simp add: add_order_def)

theorem add_order_duplicate_noop_witness:
  "active_orders book_crossed (order_id sell3) \<noteq> None \<and>
   add_order sell3 book_crossed = Some book_crossed \<and>
   execute_matching book_crossed \<noteq> Some book_crossed"
proof -
  have a: "active_orders book_crossed (order_id sell3) \<noteq> None"
    by (simp add: example_defs)
  have "execute_matching book_crossed \<noteq> Some book_crossed"
    by (simp add: example_defs ops_defs execute_matching.simps)
  then show ?thesis using a add_order_duplicate_noop [OF a] by simp
qed

text \<open>
  C4. Scenario B. Inserting buy 100 at 50.25 (id 1) and buy 200 at 50.50 (id 2) into the
  empty book gives the book with these two bids and no ask. Inserting sell 50 at 50.25
  (id 3) into it returns; one match is printed, of bid 2 at 50.50 with ask 3 at 50.25;
  order 2 rests with quantity 150 and its level's aggregate is 150; order 1 and its level
  are untouched; order 3 is neither registered nor queued. The timestamps are arbitrary.
\<close>

theorem scenario_sell_into_bids:
  "let b1 = \<lparr>order_id = 1, is_buy = True, price = 201 / 4, quantity = 100, timestamp_ns = t1\<rparr>;
       b2 = \<lparr>order_id = 2, is_buy = True, price = 101 / 2, quantity = 200, timestamp_ns = t2\<rparr>;
       s3 = \<lparr>order_id = 3, is_buy = False, price = 201 / 4, quantity = 50, timestamp_ns = t3\<rparr>;
       book = \<lparr>bid_levels =
                 [(201 / 4, \<lparr>price_point = 201 / 4, order_queue = [1], aggregate_volume = 100\<rparr>),
                  (101 / 2, \<lparr>price_point = 101 / 2, order_queue = [2], aggregate_volume = 200\<rparr>)],
               ask_levels = [],
               active_orders = [1 \<mapsto> b1, 2 \<mapsto> b2],
               executions = []\<rparr>
   in (\<exists>s1. add_order b1 empty_book = Some s1 \<and> add_order b2 s1 = Some book) \<and>
      (\<exists>s'. add_order s3 book = Some s' \<and>
         executions s' = [\<lparr>exec_bid_id = 2, exec_bid_price = 101 / 2,
                           exec_ask_id = 3, exec_ask_price = 201 / 4\<rparr>] \<and>
         bid_levels s' =
           [(201 / 4, \<lparr>price_point = 201 / 4, order_queue = [1], aggregate_volume = 100\<rparr>),
            (101 / 2, \<lparr>price_point = 101 / 2, order_queue = [2], aggregate_volume = 150\<rparr>)] \<and>
         ask_levels s' = [] \<and>
         active_orders s' 1 = Some b1 \<and>
         active_orders s' 2 = Some (b2\<lparr>quantity := 150\<rparr>) \<and>
         active_orders s' 3 = None \<and>
         dom (active_orders s') = {1, 2})"
  by (simp add: empty_book_def ops_defs execute_matching.simps insert_commute)

lemma best_bid_max:
  assumes wf: "book_wf s" and ne: "bid_levels s \<noteq> []"
  shows "get_price (best_bid s) = Max (fst ` set (bid_levels s))"
proof -
  have "fst (last (bid_levels s)) \<in> fst ` set (bid_levels s)" using ne by simp
  moreover have "\<And>y. y \<in> fst ` set (bid_levels s) \<Longrightarrow> y \<le> fst (last (bid_levels s))"
    using sorted_last_max [OF wf_sorted [OF wf, of True]] by (auto simp: fetch_side_def)
  ultimately have "Max (fst ` set (bid_levels s)) = fst (last (bid_levels s))"
    by (intro Max_eqI) auto
  then show ?thesis using best_bid_ok(2) [OF wf ne] by simp
qed

lemma best_ask_min:
  assumes wf: "book_wf s" and ne: "ask_levels s \<noteq> []"
  shows "get_price (best_ask s) = Min (fst ` set (ask_levels s))"
proof -
  have "fst (hd (ask_levels s)) \<in> fst ` set (ask_levels s)" using ne by simp
  moreover have "\<And>y. y \<in> fst ` set (ask_levels s) \<Longrightarrow> fst (hd (ask_levels s)) \<le> y"
    using sorted_hd_min [OF wf_sorted [OF wf, of False]] by (auto simp: fetch_side_def)
  ultimately have "Min (fst ` set (ask_levels s)) = fst (hd (ask_levels s))"
    by (intro Min_eqI) auto
  then show ?thesis using best_ask_ok(2) [OF wf ne] by simp
qed

lemma uncrossed_best:
  assumes wf: "book_wf s" and un: "uncrossed s"
    and nb: "bid_levels s \<noteq> []" and na: "ask_levels s \<noteq> []"
  shows "get_price (best_bid s) < get_price (best_ask s)"
proof -
  have "fst (last (bid_levels s)) \<in> fst ` set (bid_levels s)" using nb by simp
  moreover have "fst (hd (ask_levels s)) \<in> fst ` set (ask_levels s)" using na by simp
  ultimately have "fst (last (bid_levels s)) < fst (hd (ask_levels s))"
    using un unfolding uncrossed_def by blast
  then show ?thesis
    using best_bid_ok(2) [OF wf nb] best_ask_ok(2) [OF wf na] by simp
qed

lemma ord_quantity_qty_of: "ord_quantity s = qty_of (active_orders s)"
  by (simp add: ord_quantity_def qty_of_def fun_eq_iff)

text \<open>
  C1. In every book that the public operations reach, if both sides hold a level then the
  best bid price, which is the maximum of the bid prices, is strictly below the best ask
  price, which is the minimum of the ask prices.
\<close>

theorem book_never_crossed:
  "reachable s \<Longrightarrow> bid_levels s \<noteq> [] \<Longrightarrow> ask_levels s \<noteq> [] \<Longrightarrow>
   get_price (best_bid s) = Max (fst ` set (bid_levels s)) \<and>
   get_price (best_ask s) = Min (fst ` set (ask_levels s)) \<and>
   Max (fst ` set (bid_levels s)) < Min (fst ` set (ask_levels s))"
proof -
  assume r: "reachable s" and nb: "bid_levels s \<noteq> []" and na: "ask_levels s \<noteq> []"
  have wf: "book_wf s" and un: "uncrossed s" using reachable_inv [OF r] by auto
  show ?thesis
    using uncrossed_best [OF wf un nb na] best_bid_max [OF wf nb] best_ask_min [OF wf na]
    by simp
qed

theorem book_never_crossed_witness:
  "reachable book_two_sided \<and> bid_levels book_two_sided \<noteq> [] \<and> ask_levels book_two_sided \<noteq> [] \<and>
   get_price (best_bid book_two_sided) = 101 / 2 \<and>
   get_price (best_ask book_two_sided) = 51 \<and>
   Max (fst ` set (bid_levels book_two_sided)) < Min (fst ` set (ask_levels book_two_sided))"
proof -
  have nb: "bid_levels book_two_sided \<noteq> []" and na: "ask_levels book_two_sided \<noteq> []"
    by (simp_all add: book_two_sided_def)
  have "get_price (best_bid book_two_sided) = 101 / 2" "get_price (best_ask book_two_sided) = 51"
    by (simp_all add: book_two_sided_def best_bid_def best_ask_def get_price_def)
  then show ?thesis
    using book_never_crossed [OF reachable_two_sided nb na] reachable_two_sided nb na by simp
qed

lemma unat_sum_list:
  "unat (sum_list (map f xs) :: u64) = sum_list (map (\<lambda>i. unat (f i)) xs) mod 2 ^ 64"
proof (induction xs)
  case Nil
  show ?case by simp
next
  case (Cons x xs)
  have "unat (f x + sum_list (map f xs)) = (unat (f x) + unat (sum_list (map f xs))) mod 2 ^ 64"
    by (simp add: unat_word_ariths)
  also have "\<dots> = (unat (f x) + sum_list (map (\<lambda>i. unat (f i)) xs)) mod 2 ^ 64"
    unfolding Cons.IH by (simp add: mod_add_right_eq)
  finally show ?case by simp
qed

lemma add_big1: "add_order big1 empty_book = Some book_big1"
  by (simp add: empty_book_def big1_def book_big1_def ops_defs execute_matching.simps)

lemma add_big2: "add_order big2 book_big1 = Some book_big"
  by (simp add: big1_def big2_def book_big1_def book_big_def ops_defs execute_matching.simps)

lemma reachable_big: "reachable book_big"
proof -
  have "reachable book_big1"
    by (rule reachable.step [OF reachable.start, of "AddOrder big1"]) (simp add: add_big1)
  then show ?thesis
    by (rule reachable.step [of _ "AddOrder big2"]) (simp add: add_big2)
qed

text \<open>
  C3, as the code has it. In every book that the public operations reach, every level
  indexed on either side has a non-empty queue, every queued identifier is registered, and
  the level's aggregate equals the sum of the remaining quantities of the queued orders
  taken in \<open>uint64_t\<close> arithmetic: read as natural numbers, the aggregate is the sum of
  the quantities modulo \<open>2 ^ 64\<close>, and it is the sum itself whenever the sum is below
  \<open>2 ^ 64\<close>.
\<close>

theorem level_aggregate_invariant:
  "reachable s \<Longrightarrow> (p, L) \<in> set (bid_levels s) \<union> set (ask_levels s) \<Longrightarrow>
   get_volume L = sum_list (map (ord_quantity s) (get_orders L)) \<and>
   unat (get_volume L) = sum_list (map (\<lambda>i. unat (ord_quantity s i)) (get_orders L)) mod 2 ^ 64 \<and>
   (sum_list (map (\<lambda>i. unat (ord_quantity s i)) (get_orders L)) < 2 ^ 64 \<longrightarrow>
      unat (get_volume L) = sum_list (map (\<lambda>i. unat (ord_quantity s i)) (get_orders L))) \<and>
   \<not> is_empty L \<and>
   (\<forall>i\<in>set (get_orders L). active_orders s i \<noteq> None)"
proof -
  assume r: "reachable s" and m: "(p, L) \<in> set (bid_levels s) \<union> set (ask_levels s)"
  have wf: "book_wf s" using reachable_inv [OF r] by simp
  have "(p, L) \<in> set (fetch_side True s) \<or> (p, L) \<in> set (fetch_side False s)"
    using m by (simp add: fetch_side_def)
  then obtain sd where "(p, L) \<in> set (fetch_side sd s)" by blast
  then have ok: "level_ok (active_orders s) sd (p, L)" using wf_entry [OF wf] by blast
  then have agg: "get_volume L = sum_list (map (ord_quantity s) (get_orders L))"
    by (simp add: level_ok_def get_volume_def get_orders_def ord_quantity_qty_of)
  show ?thesis
    using ok unfolding agg unat_sum_list
    by (auto simp: level_ok_def rests_def get_orders_def is_empty_def)
qed

theorem level_aggregate_invariant_witness:
  "reachable book_two_sided \<and>
   (101 / 2, \<lparr>price_point = 101 / 2, order_queue = [2], aggregate_volume = 200\<rparr>)
      \<in> set (bid_levels book_two_sided) \<union> set (ask_levels book_two_sided) \<and>
   sum_list (map (\<lambda>i. unat (ord_quantity book_two_sided i)) [2]) < 2 ^ 64 \<and>
   sum_list (map (\<lambda>i. unat (ord_quantity book_two_sided i)) [2]) = 200 \<and>
   sum_list (map (ord_quantity book_two_sided) [2]) = 200 \<and>
   active_orders book_two_sided 2 \<noteq> None"
proof -
  have m: "(101 / 2, \<lparr>price_point = 101 / 2, order_queue = [2], aggregate_volume = 200\<rparr>)
      \<in> set (bid_levels book_two_sided) \<union> set (ask_levels book_two_sided)"
    by (simp add: book_two_sided_def)
  have q: "ord_quantity book_two_sided 2 = 200"
    by (simp add: book_two_sided_def buy2_def ord_quantity_def)
  show ?thesis
    using level_aggregate_invariant [OF reachable_two_sided m] reachable_two_sided m q
    by (simp add: get_volume_def get_orders_def)
qed

text \<open>
  C3, as the spec states it, fails where the quantities at one price add up to \<open>2 ^ 64\<close>
  or more: after inserting a bid of \<open>2 ^ 64 - 1\<close> and a bid of 2 at price 50, the level
  holds both orders with their full quantities, which sum to \<open>2 ^ 64 + 1\<close>, and its
  aggregate is 1.
\<close>

theorem aggregate_wraps:
  "perform (AddOrder big1) empty_book = Some book_big1 \<and>
   perform (AddOrder big2) book_big1 = Some book_big \<and>
   reachable book_big \<and>
   bid_levels book_big =
     [(50, \<lparr>price_point = 50, order_queue = [1, 2], aggregate_volume = 1\<rparr>)] \<and>
   unat (get_volume (snd (hd (bid_levels book_big)))) = 1 \<and>
   unat (ord_quantity book_big 1) + unat (ord_quantity book_big 2) = 18446744073709551617"
  using reachable_big
  by (simp add: add_big1 add_big2) (simp add: book_big_def big1_def big2_def get_volume_def ord_quantity_def)

text \<open>
  C6. \<open>cancel_order\<close> on an identifier that is not registered returns false and the book
  as it is. In a book that the public operations reach, an active order has a level at
  its price on its side and is queued there; \<open>cancel_order\<close> returns true and a book in
  which only that side's level map and the registry differ: the identifier is removed from
  the level's queue (the other identifiers keep their order), the order's quantity is
  subtracted from the level's aggregate, the level is erased when its queue has become
  empty, and the identifier is no longer registered. The other side and the printed
  executions are untouched: no matching takes place.
\<close>

theorem cancel_order_effect:
  "reachable s \<Longrightarrow>
   (active_orders s oid = None \<longrightarrow> cancel_order oid s = (False, s)) \<and>
   (\<forall>ord. active_orders s oid = Some ord \<longrightarrow>
      (\<exists>L. map_find (fetch_side (is_buy ord) s) (price ord) = Some L \<and>
           oid \<in> set (get_orders L) \<and>
           cancel_order oid s =
             (True,
              (store_side (is_buy ord)
                 (if remove1 oid (order_queue L) = []
                  then map_erase (price ord) (fetch_side (is_buy ord) s)
                  else map_modify (price ord)
                         (\<lambda>L. L\<lparr>order_queue := remove1 oid (order_queue L),
                                 aggregate_volume := aggregate_volume L - quantity ord\<rparr>)
                         (fetch_side (is_buy ord) s)) s)
              \<lparr>active_orders := (active_orders s)(oid := None)\<rparr>)))"
proof -
  assume r: "reachable s"
  have wf: "book_wf s" using reachable_inv [OF r] by simp
  have "\<exists>L. map_find (fetch_side (is_buy ord) s) (price ord) = Some L \<and>
           oid \<in> set (get_orders L) \<and>
           cancel_order oid s =
             (True,
              (store_side (is_buy ord) (drop_order oid ord L (fetch_side (is_buy ord) s)) s)
              \<lparr>active_orders := (active_orders s)(oid := None)\<rparr>)"
    if act: "active_orders s oid = Some ord" for ord
  proof -
    obtain L where lvl: "(price ord, L) \<in> set (fetch_side (is_buy ord) s)"
      and mem: "oid \<in> set (order_queue L)"
      and fnd: "map_find (fetch_side (is_buy ord) s) (price ord) = Some L"
      using wf_level [OF wf act] by blast
    show ?thesis
      using cancel_order_eq [OF act wf_sorted [OF wf] lvl mem] fnd mem
      by (auto simp: get_orders_def)
  qed
  then show ?thesis
    unfolding drop_order_def by (simp add: cancel_order_def)
qed

theorem cancel_order_effect_witness:
  "reachable book_two_sided \<and>
   cancel_order 9999 book_two_sided = (False, book_two_sided) \<and>
   cancel_order 2 book_two_sided =
     (True,
      \<lparr>bid_levels =
         [(201 / 4, \<lparr>price_point = 201 / 4, order_queue = [1], aggregate_volume = 100\<rparr>)],
       ask_levels = [(51, \<lparr>price_point = 51, order_queue = [4], aggregate_volume = 80\<rparr>)],
       active_orders = [1 \<mapsto> buy1, 2 \<mapsto> buy2, 4 \<mapsto> sell4](2 := None),
       executions = []\<rparr>)"
proof -
  have a: "active_orders book_two_sided 9999 = None" "active_orders book_two_sided 2 = Some buy2"
    by (simp_all add: book_two_sided_def)
  have "map_find (fetch_side (is_buy buy2) book_two_sided) (price buy2) =
          Some \<lparr>price_point = 101 / 2, order_queue = [2], aggregate_volume = 200\<rparr>"
    by (simp add: book_two_sided_def buy2_def fetch_side_def map_find_def)
  then show ?thesis
    using cancel_order_effect [OF reachable_two_sided, of 9999]
      cancel_order_effect [OF reachable_two_sided, of 2] a reachable_two_sided
    by (simp add: book_two_sided_def buy2_def fetch_side_def store_side_def map_erase_def)
qed

text \<open>
  C9. In every book that the public operations reach, \<open>add_order\<close> returns for every
  order: the matching loop at its end makes finitely many iterations. In the book it
  returns a side is empty or the best bid price is below the best ask price, so that
  the loop, entered again there, stops at once. (The third way out of the loop, a best
  level with an empty queue, then does not arise.)
\<close>

theorem add_order_terminates:
  "reachable s \<Longrightarrow>
   \<exists>s'. add_order ord s = Some s' \<and>
     (bid_levels s' = [] \<or> ask_levels s' = [] \<or>
      get_price (best_bid s') < get_price (best_ask s')) \<and>
     execute_matching s' = Some s'"
proof -
  assume r: "reachable s"
  have wf: "book_wf s" and un: "uncrossed s" using reachable_inv [OF r] by auto
  obtain s' where s': "add_order ord s = Some s'" "book_wf s'" "uncrossed s'"
    using add_order_total [OF wf, of ord] un by blast
  have ex: "bid_levels s' = [] \<or> ask_levels s' = [] \<or>
      get_price (best_bid s') < get_price (best_ask s')"
    using uncrossed_best [OF s'(2,3)] by blast
  then have "execute_matching s' = Some s'"
    by (subst execute_matching.simps) auto
  then show ?thesis using s'(1) ex by blast
qed

theorem add_order_terminates_witness:
  "reachable book_bids \<and>
   (\<exists>s'. add_order sell3 book_bids = Some s' \<and> ask_levels s' = [] \<and>
      execute_matching s' = Some s')"
  using add_order_terminates [OF reachable_bids, of sell3] reachable_bids
  by (simp add: example_defs ops_defs execute_matching.simps)

text \<open>
  C10. In every book that the public operations reach, amending an active order to
  quantity 0 at its current price returns true. The order stays registered, with
  quantity 0 and its other fields as they were, and stays in the queue of its level; the
  level's aggregate is decreased by the order's old quantity; the level stays indexed;
  no other level, no other order and nothing printed changes.
\<close>

theorem amend_same_price_to_zero:
  "reachable s \<Longrightarrow> active_orders s oid = Some ord \<Longrightarrow>
   \<exists>L s'. map_find (fetch_side (is_buy ord) s) (price ord) = Some L \<and>
     oid \<in> set (get_orders L) \<and>
     amend_order oid (price ord) 0 s = Some (True, s') \<and>
     active_orders s' = (active_orders s)(oid \<mapsto> ord\<lparr>quantity := 0\<rparr>) \<and>
     map_find (fetch_side (is_buy ord) s') (price ord) =
       Some (L\<lparr>aggregate_volume := aggregate_volume L - quantity ord\<rparr>) \<and>
     fetch_side (is_buy ord) s' =
       map_modify (price ord) (\<lambda>L. L\<lparr>aggregate_volume := aggregate_volume L - quantity ord\<rparr>)
         (fetch_side (is_buy ord) s) \<and>
     fetch_side (\<not> is_buy ord) s' = fetch_side (\<not> is_buy ord) s \<and>
     executions s' = executions s"
proof -
  assume r: "reachable s" and act: "active_orders s oid = Some ord"
  have wf: "book_wf s" using reachable_inv [OF r] by simp
  obtain L where mem: "oid \<in> set (order_queue L)"
    and fnd: "map_find (fetch_side (is_buy ord) s) (price ord) = Some L"
    using wf_level [OF wf act] by blast
  have f: "update_volume (quantity ord) 0 =
      (\<lambda>L. L\<lparr>aggregate_volume := aggregate_volume L - quantity ord\<rparr>)"
    by (simp add: update_volume_def fun_eq_iff)
  have "amend_order oid (price ord) 0 s = Some (True, set_quantity oid ord 0 s)"
    using amend_order_same [OF act fnd] .
  then show ?thesis
    using fnd mem by (simp add: set_quantity_def f find_modify get_orders_def)
qed

theorem amend_same_price_to_zero_witness:
  "reachable book_two_sided \<and> active_orders book_two_sided 2 = Some buy2 \<and>
   amend_order 2 (101 / 2) 0 book_two_sided =
     Some (True,
       \<lparr>bid_levels =
          [(201 / 4, \<lparr>price_point = 201 / 4, order_queue = [1], aggregate_volume = 100\<rparr>),
           (101 / 2, \<lparr>price_point = 101 / 2, order_queue = [2], aggregate_volume = 0\<rparr>)],
        ask_levels = [(51, \<lparr>price_point = 51, order_queue = [4], aggregate_volume = 80\<rparr>)],
        active_orders = [1 \<mapsto> buy1, 2 \<mapsto> buy2, 4 \<mapsto> sell4, 2 \<mapsto> buy2\<lparr>quantity := 0\<rparr>],
        executions = []\<rparr>)"
proof -
  have a: "active_orders book_two_sided 2 = Some buy2"
    by (simp add: book_two_sided_def)
  have "amend_order 2 (101 / 2) 0 book_two_sided =
     Some (True,
       \<lparr>bid_levels =
          [(201 / 4, \<lparr>price_point = 201 / 4, order_queue = [1], aggregate_volume = 100\<rparr>),
           (101 / 2, \<lparr>price_point = 101 / 2, order_queue = [2], aggregate_volume = 0\<rparr>)],
        ask_levels = [(51, \<lparr>price_point = 51, order_queue = [4], aggregate_volume = 80\<rparr>)],
        active_orders = [1 \<mapsto> buy1, 2 \<mapsto> buy2, 4 \<mapsto> sell4, 2 \<mapsto> buy2\<lparr>quantity := 0\<rparr>],
        executions = []\<rparr>)"
    by (simp add: example_defs ops_defs)
  then show ?thesis
    using amend_same_price_to_zero [OF reachable_two_sided a] reachable_two_sided a by simp
qed

lemma process_match_executions:
  "active_orders s bid_id = Some bo \<Longrightarrow> active_orders s ask_id = Some ao \<Longrightarrow>
   executions (process_match bid_id ask_id s) =
     executions s @ [\<lparr>exec_bid_id = bid_id, exec_bid_price = price bo,
                      exec_ask_id = ask_id, exec_ask_price = price ao\<rparr>]"
  by (simp add: process_match_def Let_def executions_cancel sub_quantity_def ord_price_def
      split: option.splits)

text \<open>The two orders that one iteration of the matching loop hands to \<open>process_match\<close>.\<close>

lemma matched_heads:
  assumes wf: "book_wf t" and nb: "bid_levels t \<noteq> []" and na: "ask_levels t \<noteq> []"
  obtains bo ao where "active_orders t (hd (get_orders (best_bid t))) = Some bo"
    and "active_orders t (hd (get_orders (best_ask t))) = Some ao"
    and "price bo = get_price (best_bid t)" and "price ao = get_price (best_ask t)"
    and "hd (get_orders (best_bid t)) \<noteq> hd (get_orders (best_ask t))"
proof -
  note bb = best_bid_ok [OF wf nb] and ba = best_ask_ok [OF wf na]
  have "hd (get_orders (best_bid t)) \<in> set (queue_at True (get_price (best_bid t)) t)"
    using bb(3,4) by simp
  then obtain bo where bo: "active_orders t (hd (get_orders (best_bid t))) = Some bo"
    "is_buy bo = True" "price bo = get_price (best_bid t)"
    using queued_active [OF wf] by blast
  have "hd (get_orders (best_ask t)) \<in> set (queue_at False (get_price (best_ask t)) t)"
    using ba(3,4) by simp
  then obtain ao where ao: "active_orders t (hd (get_orders (best_ask t))) = Some ao"
    "is_buy ao = False" "price ao = get_price (best_ask t)"
    using queued_active [OF wf] by blast
  have "hd (get_orders (best_bid t)) \<noteq> hd (get_orders (best_ask t))"
    using bo(1,2) ao(1,2) by auto
  then show ?thesis using that bo ao by blast
qed

lemma loop_iteration:
  assumes wf: "book_wf t" and nb: "bid_levels t \<noteq> []" and na: "ask_levels t \<noteq> []"
    and cross: "\<not> get_price (best_bid t) < get_price (best_ask t)"
  shows "execute_matching t =
    execute_matching (process_match (hd (get_orders (best_bid t))) (hd (get_orders (best_ask t))) t)"
  using nb na cross best_bid_ok(3) [OF wf nb] best_ask_ok(3) [OF wf na]
  by (subst execute_matching.simps) simp

text \<open>
  C2, as the code has it. For every match a notification is printed that carries exactly
  the bid's identifier and price and the ask's identifier and price, each price that of
  the resting order (no execution price is computed); the matched quantity is not carried.
  First, \<open>process_match\<close> on two registered identifiers appends exactly that line.
  Second, with an identifier that is not registered there is no match and nothing is
  printed. Third, the line is the same in any other book in which the two orders have the
  same prices, whatever their quantities. Fourth, every iteration of the loop of
  \<open>execute_matching\<close> in a well-formed book is such a match: of the registered, different
  heads of the best bid and the best ask queue, at the best bid and the best ask price.
\<close>

theorem process_match_notification:
  "(active_orders s bid_id = Some bo \<and> active_orders s ask_id = Some ao \<and>
    bid_id \<noteq> ask_id \<longrightarrow>
      executions (process_match bid_id ask_id s) =
        executions s @ [\<lparr>exec_bid_id = bid_id, exec_bid_price = price bo,
                         exec_ask_id = ask_id, exec_ask_price = price ao\<rparr>]) \<and>
   (active_orders s bid_id = None \<or> active_orders s ask_id = None \<longrightarrow>
      process_match bid_id ask_id s = s) \<and>
   (active_orders s bid_id = Some bo \<and> active_orders s ask_id = Some ao \<and>
    bid_id \<noteq> ask_id \<and>
    active_orders s2 bid_id = Some bo2 \<and> active_orders s2 ask_id = Some ao2 \<and>
    price bo2 = price bo \<and> price ao2 = price ao \<longrightarrow>
      drop (length (executions s2)) (executions (process_match bid_id ask_id s2)) =
      drop (length (executions s)) (executions (process_match bid_id ask_id s))) \<and>
   (book_wf t \<and> bid_levels t \<noteq> [] \<and> ask_levels t \<noteq> [] \<and>
    \<not> get_price (best_bid t) < get_price (best_ask t) \<longrightarrow>
      (\<exists>hb ha. active_orders t (hd (get_orders (best_bid t))) = Some hb \<and>
         active_orders t (hd (get_orders (best_ask t))) = Some ha \<and>
         hd (get_orders (best_bid t)) \<noteq> hd (get_orders (best_ask t)) \<and>
         price hb = get_price (best_bid t) \<and> price ha = get_price (best_ask t) \<and>
         execute_matching t =
           execute_matching
             (process_match (hd (get_orders (best_bid t))) (hd (get_orders (best_ask t))) t) \<and>
         executions
             (process_match (hd (get_orders (best_bid t))) (hd (get_orders (best_ask t))) t) =
           executions t @
             [\<lparr>exec_bid_id = hd (get_orders (best_bid t)), exec_bid_price = price hb,
               exec_ask_id = hd (get_orders (best_ask t)), exec_ask_price = price ha\<rparr>]))"
proof (intro conjI impI)
  assume "active_orders s bid_id = Some bo \<and> active_orders s ask_id = Some ao \<and>
    bid_id \<noteq> ask_id"
  then show "executions (process_match bid_id ask_id s) =
        executions s @ [\<lparr>exec_bid_id = bid_id, exec_bid_price = price bo,
                         exec_ask_id = ask_id, exec_ask_price = price ao\<rparr>]"
    using process_match_executions [of s bid_id bo ask_id ao] by simp
next
  assume "active_orders s bid_id = None \<or> active_orders s ask_id = None"
  then show "process_match bid_id ask_id s = s" by (auto simp: process_match_def)
next
  assume "active_orders s bid_id = Some bo \<and> active_orders s ask_id = Some ao \<and>
    bid_id \<noteq> ask_id \<and>
    active_orders s2 bid_id = Some bo2 \<and> active_orders s2 ask_id = Some ao2 \<and>
    price bo2 = price bo \<and> price ao2 = price ao"
  then show "drop (length (executions s2)) (executions (process_match bid_id ask_id s2)) =
      drop (length (executions s)) (executions (process_match bid_id ask_id s))"
    using process_match_executions [of s bid_id bo ask_id ao]
      process_match_executions [of s2 bid_id bo2 ask_id ao2] by simp
next
  assume a: "book_wf t \<and> bid_levels t \<noteq> [] \<and> ask_levels t \<noteq> [] \<and>
    \<not> get_price (best_bid t) < get_price (best_ask t)"
  then have wf: "book_wf t" and nb: "bid_levels t \<noteq> []" and na: "ask_levels t \<noteq> []"
    and cross: "\<not> get_price (best_bid t) < get_price (best_ask t)" by auto
  obtain hb ha where h: "active_orders t (hd (get_orders (best_bid t))) = Some hb"
    "active_orders t (hd (get_orders (best_ask t))) = Some ha"
    "price hb = get_price (best_bid t)" "price ha = get_price (best_ask t)"
    "hd (get_orders (best_bid t)) \<noteq> hd (get_orders (best_ask t))"
    using matched_heads [OF wf nb na] by blast
  show "\<exists>hb ha. active_orders t (hd (get_orders (best_bid t))) = Some hb \<and>
         active_orders t (hd (get_orders (best_ask t))) = Some ha \<and>
         hd (get_orders (best_bid t)) \<noteq> hd (get_orders (best_ask t)) \<and>
         price hb = get_price (best_bid t) \<and> price ha = get_price (best_ask t) \<and>
         execute_matching t =
           execute_matching
             (process_match (hd (get_orders (best_bid t))) (hd (get_orders (best_ask t))) t) \<and>
         executions
             (process_match (hd (get_orders (best_bid t))) (hd (get_orders (best_ask t))) t) =
           executions t @
             [\<lparr>exec_bid_id = hd (get_orders (best_bid t)), exec_bid_price = price hb,
               exec_ask_id = hd (get_orders (best_ask t)), exec_ask_price = price ha\<rparr>]"
    using h loop_iteration [OF wf nb na cross] process_match_executions [OF h(1,2)]
    by blast
qed

theorem process_match_notification_witness:
  "active_orders book_crossed 2 = Some buy2 \<and> active_orders book_crossed 3 = Some sell3 \<and>
   (2 :: u64) \<noteq> 3 \<and>
   executions (process_match 2 3 book_crossed) =
     [\<lparr>exec_bid_id = 2, exec_bid_price = 101 / 2, exec_ask_id = 3, exec_ask_price = 201 / 4\<rparr>] \<and>
   active_orders book_crossed 9999 = None \<and>
   process_match 9999 3 book_crossed = book_crossed \<and>
   active_orders book_crossed_small 2 = Some buy2 \<and>
   active_orders book_crossed_small 3 = Some (sell3\<lparr>quantity := 30\<rparr>) \<and>
   price (sell3\<lparr>quantity := 30\<rparr>) = price sell3 \<and>
   executions (process_match 2 3 book_crossed_small) =
     executions (process_match 2 3 book_crossed) \<and>
   book_wf book_crossed \<and> bid_levels book_crossed \<noteq> [] \<and> ask_levels book_crossed \<noteq> [] \<and>
   \<not> get_price (best_bid book_crossed) < get_price (best_ask book_crossed) \<and>
   hd (get_orders (best_bid book_crossed)) = 2 \<and> hd (get_orders (best_ask book_crossed)) = 3 \<and>
   execute_matching book_crossed = execute_matching (process_match 2 3 book_crossed)"
proof -
  have a: "active_orders book_crossed 2 = Some buy2" "active_orders book_crossed 3 = Some sell3"
    "active_orders book_crossed 9999 = None"
    "active_orders book_crossed_small 2 = Some buy2"
    "active_orders book_crossed_small 3 = Some (sell3\<lparr>quantity := 30\<rparr>)"
    "executions book_crossed = []" "executions book_crossed_small = []"
    by (simp_all add: book_crossed_def book_crossed_small_def)
  have c: "bid_levels book_crossed \<noteq> []" "ask_levels book_crossed \<noteq> []"
    "\<not> get_price (best_bid book_crossed) < get_price (best_ask book_crossed)"
    "hd (get_orders (best_bid book_crossed)) = 2" "hd (get_orders (best_ask book_crossed)) = 3"
    by (simp_all add: book_crossed_def best_bid_def best_ask_def get_price_def get_orders_def)
  note th = process_match_notification [of book_crossed 2 buy2 3 sell3 book_crossed_small buy2
      "sell3\<lparr>quantity := 30\<rparr>" book_crossed]
  note th9 = process_match_notification [of book_crossed 9999 buy2 3 sell3 book_crossed_small buy2
      "sell3\<lparr>quantity := 30\<rparr>" book_crossed]
  have 1: "executions (process_match 2 3 book_crossed) =
     [\<lparr>exec_bid_id = 2, exec_bid_price = 101 / 2, exec_ask_id = 3, exec_ask_price = 201 / 4\<rparr>]"
    using th a by (simp add: buy2_def sell3_def)
  have 2: "process_match 9999 3 book_crossed = book_crossed"
    using th9 a by simp
  have 3: "executions (process_match 2 3 book_crossed_small) =
     executions (process_match 2 3 book_crossed)"
    using th a by simp
  have 4: "execute_matching book_crossed = execute_matching (process_match 2 3 book_crossed)"
    using th wf_crossed c by auto
  show ?thesis
    using a c wf_crossed 1 2 3 4 by simp
qed

text \<open>
  C2, as the spec states it, fails: the printed line does not carry the matched quantity.
  Matching bid 2 with ask 3 prints the same line whether 50 is matched (order 2 is left
  with 150) or 30 is matched (order 2 is left with 170).
\<close>

theorem notification_lacks_quantity:
  "executions (process_match 2 3 book_crossed) =
     executions (process_match 2 3 book_crossed_small) \<and>
   match_qty book_crossed 2 3 = 50 \<and> match_qty book_crossed_small 2 3 = 30 \<and>
   ord_quantity (process_match 2 3 book_crossed) 2 = 150 \<and>
   ord_quantity (process_match 2 3 book_crossed_small) 2 = 170"
  by (simp add: example_defs ops_defs)

lemma find_insert:
  "map_find (map_insert p L m) p' = (if p' = p then Some L else map_find m p')"
  by (induction m) (auto simp: map_find_def)

lemma find_enqueue:
  "map_find (enqueue ord m) p =
     (if p = price ord
      then Some (push_order (order_id ord) (quantity ord)
                   (case map_find m p of None \<Rightarrow> new_level p | Some L \<Rightarrow> L))
      else map_find m p)"
  by (cases "map_find m (price ord)") (simp_all add: enqueue_def find_insert find_modify)

lemma queue_at_queued:
  "queue_at sd p (queued ord s) =
     queue_at sd p s @ (if sd = is_buy ord \<and> p = price ord then [order_id ord] else [])"
  by (cases "map_find (fetch_side sd s) p")
     (auto simp: queue_at_def queued_def find_enqueue push_order_def new_level_def get_orders_def)

lemma wf_order_id: "book_wf s \<Longrightarrow> active_orders s i = Some ord \<Longrightarrow> order_id ord = i"
  unfolding book_wf_def reg_ok_def by blast

lemma queue_at_mem:
  assumes wf: "book_wf s" and act: "active_orders s i = Some ord"
  shows "i \<in> set (queue_at (is_buy ord) (price ord) s)"
proof -
  obtain L where "i \<in> set (order_queue L)"
    "map_find (fetch_side (is_buy ord) s) (price ord) = Some L"
    using wf_level [OF wf act] by blast
  then show ?thesis by (simp add: queue_at_def get_orders_def)
qed

text \<open>The book in which \<open>add_order\<close> has queued \<open>ord\<close>, and the book it returns.\<close>

lemma add_order_new:
  assumes wf: "book_wf s" and act: "active_orders s (order_id ord) = None"
  obtains s' where "add_order ord s = Some s'" and "book_wf s'" and "uncrossed s'"
    and "follows (queued ord s) s'"
proof -
  have "book_wf (queued ord s)" using wf act by (rule wf_queued)
  then obtain s' where "execute_matching (queued ord s) = Some s'" "book_wf s'" "uncrossed s'"
    "follows (queued ord s) s'"
    using matching_terminates by blast
  then show ?thesis using that act by (simp add: add_order_eq)
qed

lemma followsD_order:
  "follows s s' \<Longrightarrow> active_orders s' i = Some o' \<Longrightarrow>
   \<exists>ord. active_orders s i = Some ord \<and> order_id o' = order_id ord \<and>
      is_buy o' = is_buy ord \<and> price o' = price ord \<and> timestamp_ns o' = timestamp_ns ord"
  unfolding follows_def by blast

lemma followsD_queue: "follows s s' \<Longrightarrow> \<exists>n. queue_at sd p s' = drop n (queue_at sd p s)"
  unfolding follows_def by blast

lemma amend_moves_to_tail:
  assumes wf: "book_wf s" and act: "active_orders s oid = Some ord" and ne: "price ord \<noteq> np"
  shows "\<exists>s'. amend_order oid np nq s = Some (True, s') \<and>
           (active_orders s' oid \<noteq> None \<longrightarrow>
              queue_at (is_buy ord) np s' \<noteq> [] \<and> last (queue_at (is_buy ord) np s') = oid)"
proof -
  let ?u = "snd (cancel_order oid s)"
  let ?o = "ord\<lparr>price := np, quantity := nq\<rparr>"
  have id: "order_id ?o = oid" using wf_order_id [OF wf act] by simp
  have wfu: "book_wf ?u" using wf by (rule wf_cancel)
  have "active_orders ?u (order_id ?o) = None" by (simp add: id active_cancel)
  with wfu obtain s' where s': "add_order ?o ?u = Some s'" "book_wf s'"
    "follows (queued ?o ?u) s'"
    by (rule add_order_new)
  have am: "amend_order oid np nq s = Some (True, s')"
    using amend_order_moved [OF act ne, of nq] s'(1) by simp
  have "queue_at (is_buy ord) np s' \<noteq> [] \<and> last (queue_at (is_buy ord) np s') = oid"
    if a': "active_orders s' oid = Some o'" for o'
  proof -
    obtain o0 where o0: "active_orders (queued ?o ?u) oid = Some o0" "is_buy o' = is_buy o0"
      "price o' = price o0"
      using followsD_order [OF s'(3) a'] by blast
    have "o0 = ?o" using o0(1) id by (simp add: queued_def)
    then have "is_buy o' = is_buy ord" "price o' = np"
      using o0(2,3) by simp_all
    then have mem: "oid \<in> set (queue_at (is_buy ord) np s')"
      using queue_at_mem [OF s'(2) a'] by simp
    obtain n where n: "queue_at (is_buy ord) np s' =
        drop n (queue_at (is_buy ord) np ?u @ [oid])"
      using followsD_queue [OF s'(3), of "is_buy ord" np] id by (auto simp: queue_at_queued)
    have "n < length (queue_at (is_buy ord) np ?u @ [oid])"
      using mem unfolding n by (cases "n < length (queue_at (is_buy ord) np ?u @ [oid])") auto
    then have "last (queue_at (is_buy ord) np s') = oid"
      unfolding n by (simp add: last_drop)
    then show ?thesis using mem by auto
  qed
  then show ?thesis using am by auto
qed

text \<open>
  C5. In every book that the public operations reach, for an active order whose price
  differs from the new price, \<open>amend_order\<close> returns true and exactly the book that
  cancelling the order and then inserting an order with the same identifier, side and
  timestamp and the new price and quantity gives. The insertion runs the matching loop
  (the example below shows a match that it triggers). If the order is still registered
  afterwards, it is the last identifier in the queue of the new price's level.
\<close>

theorem amend_price_change_refines:
  "reachable s \<Longrightarrow> active_orders s oid = Some ord \<Longrightarrow> price ord \<noteq> new_price \<Longrightarrow>
   amend_order oid new_price new_quantity s =
     cancel_then_insert oid ord new_price new_quantity s \<and>
   (\<exists>s'. amend_order oid new_price new_quantity s = Some (True, s') \<and>
      (active_orders s' oid \<noteq> None \<longrightarrow>
         queue_at (is_buy ord) new_price s' \<noteq> [] \<and>
         last (queue_at (is_buy ord) new_price s') = oid))"
proof -
  assume r: "reachable s" and act: "active_orders s oid = Some ord"
    and ne: "price ord \<noteq> new_price"
  have wf: "book_wf s" using reachable_inv [OF r] by simp
  have "ord\<lparr>price := new_price, quantity := new_quantity\<rparr> =
      \<lparr>order_id = oid, is_buy = is_buy ord, price = new_price,
       quantity = new_quantity, timestamp_ns = timestamp_ns ord\<rparr>"
    using wf_order_id [OF wf act] by simp
  then have "amend_order oid new_price new_quantity s =
     cancel_then_insert oid ord new_price new_quantity s"
    using amend_order_moved [OF act ne, of new_quantity]
    by (simp add: cancel_then_insert_def split_beta)
  then show ?thesis
    using amend_moves_to_tail [OF wf act ne, of new_quantity] by simp
qed

theorem amend_price_change_refines_witness:
  "reachable book_two_sided \<and> active_orders book_two_sided 2 = Some buy2 \<and>
   price buy2 \<noteq> 51 \<and>
   amend_order 2 51 300 book_two_sided = cancel_then_insert 2 buy2 51 300 book_two_sided \<and>
   (\<exists>s'. amend_order 2 51 300 book_two_sided = Some (True, s') \<and>
      active_orders s' 2 = Some (buy2\<lparr>price := 51, quantity := 220\<rparr>) \<and>
      queue_at True 51 s' = [2] \<and>
      queue_at True (101 / 2) s' = [] \<and>
      ask_levels s' = [] \<and>
      executions s' =
        [\<lparr>exec_bid_id = 2, exec_bid_price = 51, exec_ask_id = 4, exec_ask_price = 51\<rparr>])"
proof -
  have a: "active_orders book_two_sided 2 = Some buy2" and p: "price buy2 \<noteq> 51"
    by (simp_all add: book_two_sided_def buy2_def)
  have "\<exists>s'. amend_order 2 51 300 book_two_sided = Some (True, s') \<and>
      active_orders s' 2 = Some (buy2\<lparr>price := 51, quantity := 220\<rparr>) \<and>
      queue_at True 51 s' = [2] \<and>
      queue_at True (101 / 2) s' = [] \<and>
      ask_levels s' = [] \<and>
      executions s' =
        [\<lparr>exec_bid_id = 2, exec_bid_price = 51, exec_ask_id = 4, exec_ask_price = 51\<rparr>]"
    by (simp add: example_defs ops_defs queue_at_def execute_matching.simps)
  then show ?thesis
    using amend_price_change_refines [OF reachable_two_sided a p, of 300] reachable_two_sided a p
    by simp
qed

lemma filter_drop:
  "distinct r \<Longrightarrow> filter (\<lambda>x. x \<in> set (drop n r)) r = drop n r"
proof (induction r arbitrary: n)
  case Nil
  show ?case by simp
next
  case (Cons x xs)
  show ?case
  proof (cases n)
    case 0
    then show ?thesis by simp
  next
    case (Suc k)
    have "x \<notin> set (drop k xs)" using Cons.prems by (auto dest: in_set_dropD)
    then show ?thesis using Cons Suc by simp
  qed
qed

text \<open>
  A queue that lost some identifiers, gained \<open>arr\<close> at its tail and then lost its \<open>n\<close>
  oldest ones: the identifiers that stay keep their order, and the new ones follow them.
\<close>

lemma fifo_general:
  assumes d: "distinct q" and q': "q' = drop n (filter P q @ arr)"
    and arr: "set arr \<inter> set q = {}"
  shows "\<exists>new. q' = filter (\<lambda>i. i \<in> set q') q @ new \<and> set new \<inter> set q = {}"
proof -
  let ?r = "filter P q"
  let ?new = "drop (n - length ?r) arr"
  have split: "q' = drop n ?r @ ?new" by (simp add: q')
  have new: "set ?new \<inter> set q = {}" using arr by (auto dest: in_set_dropD)
  have "filter (\<lambda>i. i \<in> set q') q = filter (\<lambda>i. i \<in> set (drop n ?r)) q"
    using new by (intro filter_cong) (auto simp: split)
  also have "\<dots> = filter (\<lambda>i. P i \<and> i \<in> set (drop n ?r)) q"
    by (rule filter_cong) (auto dest: in_set_dropD)
  also have "\<dots> = filter (\<lambda>i. i \<in> set (drop n ?r)) ?r"
    by simp
  also have "\<dots> = drop n ?r" using d by (intro filter_drop) simp
  finally show ?thesis using split new by auto
qed

lemma not_queued:
  "book_wf s \<Longrightarrow> active_orders s i = None \<Longrightarrow> i \<notin> set (queue_at sd p s)"
  using queued_active [of s i sd p] by auto

lemma queue_at_cancel_filter:
  assumes wf: "book_wf s"
  shows "queue_at sd p (snd (cancel_order oid s)) = filter (\<lambda>x. x \<noteq> oid) (queue_at sd p s)"
proof (cases "active_orders s oid")
  case None
  then have "oid \<notin> set (queue_at sd p s)" using wf by (intro not_queued)
  then have "filter (\<lambda>x. x \<noteq> oid) (queue_at sd p s) = queue_at sd p s"
    by (intro filter_True) auto
  then show ?thesis using None by (simp add: cancel_order_def)
next
  case (Some ord)
  have d: "distinct (queue_at sd p s)" using wf by (rule queue_at_distinct)
  show ?thesis
  proof (cases "sd = is_buy ord \<and> p = price ord")
    case True
    then show ?thesis
      using queue_at_cancel [OF wf Some, of sd p] d
      by (simp add: distinct_remove1_removeAll removeAll_filter_not_eq) metis
  next
    case False
    then have "oid \<notin> set (queue_at sd p s)"
      using queued_active [OF wf, of oid sd p] Some by auto
    then have "filter (\<lambda>x. x \<noteq> oid) (queue_at sd p s) = queue_at sd p s"
      by (intro filter_True) auto
    then show ?thesis using queue_at_cancel [OF wf Some, of sd p] False by simp
  qed
qed

text \<open>What one public operation does to the queue at a price of a well-formed book.\<close>

lemma add_order_queue:
  assumes wf: "book_wf s" and add: "add_order ord s = Some s'"
  shows "\<exists>n. queue_at sd p s' =
           drop n (queue_at sd p s @
             (if active_orders s (order_id ord) = None \<and> sd = is_buy ord \<and> p = price ord
              then [order_id ord] else []))"
proof (cases "active_orders s (order_id ord)")
  case (Some x)
  then have "s' = s" using add by (simp add: add_order_def)
  then have "queue_at sd p s' = drop 0 (queue_at sd p s @ [])" by simp
  then have "\<exists>n. queue_at sd p s' = drop n (queue_at sd p s @ [])" by (rule exI)
  then show ?thesis using Some by simp
next
  case None
  obtain t where t: "add_order ord s = Some t" "follows (queued ord s) t"
    using add_order_new [OF wf None] by metis
  then have "follows (queued ord s) s'" using add by simp
  then show ?thesis
    using followsD_queue [of "queued ord s" s' sd p] None by (simp add: queue_at_queued)
qed

lemma perform_queue:
  assumes wf: "book_wf s" and op: "perform op s = Some s'"
  shows "\<exists>P n arr. queue_at sd p s' = drop n (filter P (queue_at sd p s) @ arr) \<and>
           set arr \<inter> set (queue_at sd p s) = {}"
proof (cases op)
  case (AddOrder ord)
  let ?arr = "if active_orders s (order_id ord) = None \<and> sd = is_buy ord \<and> p = price ord
              then [order_id ord] else []"
  obtain n where "queue_at sd p s' = drop n (queue_at sd p s @ ?arr)"
    using add_order_queue [OF wf, of ord s' sd p] op AddOrder by auto
  then have "queue_at sd p s' = drop n (filter (\<lambda>x. True) (queue_at sd p s) @ ?arr)" by simp
  moreover have "set ?arr \<inter> set (queue_at sd p s) = {}"
    using not_queued [OF wf, of "order_id ord" sd p] by auto
  ultimately show ?thesis by blast
next
  case (CancelOrder oid)
  then have "queue_at sd p s' = drop 0 (filter (\<lambda>x. x \<noteq> oid) (queue_at sd p s) @ [])"
    using op queue_at_cancel_filter [OF wf, of sd p oid] by auto
  moreover have "set [] \<inter> set (queue_at sd p s) = {}" by simp
  ultimately show ?thesis by blast
next
  case (AmendOrder oid np nq)
  have same: ?thesis if "queue_at sd p s' = queue_at sd p s"
  proof -
    have "queue_at sd p s' = drop 0 (filter (\<lambda>x. True) (queue_at sd p s) @ [])"
      using that by simp
    moreover have "set [] \<inter> set (queue_at sd p s) = {}" by simp
    ultimately show ?thesis by blast
  qed
  show ?thesis
  proof (cases "active_orders s oid")
    case None
    then have "s' = s" using op AmendOrder by (simp add: amend_order_def)
    then show ?thesis using same by simp
  next
    case (Some ord)
    show ?thesis
    proof (cases "price ord = np")
      case True
      obtain L where "map_find (fetch_side (is_buy ord) s) (price ord) = Some L"
        using wf_level [OF wf Some] by blast
      then have "s' = set_quantity oid ord nq s"
        using amend_order_same [OF Some, of L nq] op AmendOrder True by simp
      then show ?thesis using same by simp
    next
      case False
      let ?u = "snd (cancel_order oid s)"
      let ?o = "ord\<lparr>price := np, quantity := nq\<rparr>"
      let ?arr = "if active_orders ?u (order_id ?o) = None \<and> sd = is_buy ?o \<and> p = price ?o
                  then [order_id ?o] else []"
      have id: "order_id ?o = oid" using wf_order_id [OF wf Some] by simp
      have add: "add_order ?o ?u = Some s'"
        using amend_order_moved [OF Some False, of nq] op AmendOrder by auto
      obtain n where "queue_at sd p s' = drop n (queue_at sd p ?u @ ?arr)"
        using add_order_queue [OF wf_cancel [OF wf] add, of sd p] by blast
      then have "queue_at sd p s' = drop n (filter (\<lambda>x. x \<noteq> oid) (queue_at sd p s) @ ?arr)"
        using queue_at_cancel_filter [OF wf, of sd p oid] by simp
      moreover have "set ?arr \<inter> set (queue_at sd p s) = {}"
        using queued_active [OF wf, of oid sd p] Some False id by auto
      ultimately show ?thesis by blast
    qed
  qed
qed

lemma reachable_step_wf:
  "reachable s \<Longrightarrow> perform op s = Some s' \<Longrightarrow> book_wf s'"
  using reachable_inv [OF reachable.step] by blast

lemma add_buy5: "add_order buy5 book_bids = Some book_fifo"
  by (simp add: example_defs buy5_def book_fifo_def ops_defs execute_matching.simps)

lemma reachable_fifo: "reachable book_fifo"
  by (rule reachable.step [OF reachable_bids, of "AddOrder buy5"]) (simp add: add_buy5)

text \<open>
  C8. In every book that the public operations reach, and for every operation, side and
  price: the queue at that price has no repetition afterwards; the identifiers of the old
  queue that are still in it come first and in their old order (partial fills,
  same-price amendments and cancellations of other orders leave them where they are);
  whatever is new follows them. \<open>add_order\<close> appends the new identifier at the tail,
  and what its matching then removes from a queue is a prefix of it: the oldest
  identifiers. Inside the loop, in a well-formed book (the public operations reach only
  well-formed books, and the loop stays within them) whose sides cross, the two queues
  that \<open>execute_matching\<close> reads are those of the maximum bid price and the minimum ask
  price; it matches their heads; afterwards each of these two queues has lost its head, if
  that order is no longer registered, and is unchanged otherwise, and every other queue
  is unchanged.
\<close>

theorem fifo_order_preserved:
  "(reachable s \<and> perform op s = Some s' \<longrightarrow>
      distinct (queue_at sd p s') \<and>
      (\<exists>new. queue_at sd p s' =
                filter (\<lambda>i. i \<in> set (queue_at sd p s')) (queue_at sd p s) @ new \<and>
              set new \<inter> set (queue_at sd p s) = {}) \<and>
      (\<forall>ord. op = AddOrder ord \<longrightarrow>
         (\<exists>n. queue_at sd p s' =
                drop n (queue_at sd p s @
                  (if active_orders s (order_id ord) = None \<and> sd = is_buy ord \<and> p = price ord
                   then [order_id ord] else []))))) \<and>
   (book_wf t \<and> bid_levels t \<noteq> [] \<and> ask_levels t \<noteq> [] \<and>
    \<not> get_price (best_bid t) < get_price (best_ask t) \<longrightarrow>
      (let bid_id = hd (get_orders (best_bid t));
           ask_id = hd (get_orders (best_ask t));
           t' = process_match bid_id ask_id t
       in get_price (best_bid t) = Max (fst ` set (bid_levels t)) \<and>
          get_price (best_ask t) = Min (fst ` set (ask_levels t)) \<and>
          get_orders (best_bid t) = queue_at True (get_price (best_bid t)) t \<and>
          get_orders (best_ask t) = queue_at False (get_price (best_ask t)) t \<and>
          get_orders (best_bid t) \<noteq> [] \<and> get_orders (best_ask t) \<noteq> [] \<and>
          execute_matching t = execute_matching t' \<and>
          book_wf t' \<and>
          queue_at sd p t' =
            (if sd \<and> p = get_price (best_bid t) \<and> active_orders t' bid_id = None
                \<or> \<not> sd \<and> p = get_price (best_ask t) \<and> active_orders t' ask_id = None
             then tl (queue_at sd p t) else queue_at sd p t)))"
proof (intro conjI impI)
  assume a: "reachable s \<and> perform op s = Some s'"
  then have wf: "book_wf s" and wf': "book_wf s'"
    using reachable_inv reachable_step_wf by blast+
  show "distinct (queue_at sd p s')" using wf' by (rule queue_at_distinct)
  obtain P n arr where "queue_at sd p s' = drop n (filter P (queue_at sd p s) @ arr)"
    "set arr \<inter> set (queue_at sd p s) = {}"
    using perform_queue [OF wf, of op s' sd p] a by blast
  then show "\<exists>new. queue_at sd p s' =
                filter (\<lambda>i. i \<in> set (queue_at sd p s')) (queue_at sd p s) @ new \<and>
              set new \<inter> set (queue_at sd p s) = {}"
    using fifo_general [OF queue_at_distinct [OF wf, of sd p]] by blast
  show "\<forall>ord. op = AddOrder ord \<longrightarrow>
         (\<exists>n. queue_at sd p s' =
                drop n (queue_at sd p s @
                  (if active_orders s (order_id ord) = None \<and> sd = is_buy ord \<and> p = price ord
                   then [order_id ord] else [])))"
  proof (intro allI impI)
    fix ord
    assume "op = AddOrder ord"
    then have "add_order ord s = Some s'" using a by simp
    then show "\<exists>n. queue_at sd p s' =
                drop n (queue_at sd p s @
                  (if active_orders s (order_id ord) = None \<and> sd = is_buy ord \<and> p = price ord
                   then [order_id ord] else []))"
      by (rule add_order_queue [OF wf])
  qed
next
  assume b: "book_wf t \<and> bid_levels t \<noteq> [] \<and> ask_levels t \<noteq> [] \<and>
    \<not> get_price (best_bid t) < get_price (best_ask t)"
  then have wf: "book_wf t" and nb: "bid_levels t \<noteq> []" and na: "ask_levels t \<noteq> []" by auto
  note it = match_iteration [OF wf nb na refl refl refl]
  note bb = best_bid_ok [OF wf nb] and ba = best_ask_ok [OF wf na]
  have "execute_matching t =
      execute_matching (process_match (hd (get_orders (best_bid t))) (hd (get_orders (best_ask t))) t)"
    using b bb(3) ba(3) by (subst execute_matching.simps) simp
  then show "let bid_id = hd (get_orders (best_bid t));
           ask_id = hd (get_orders (best_ask t));
           t' = process_match bid_id ask_id t
       in get_price (best_bid t) = Max (fst ` set (bid_levels t)) \<and>
          get_price (best_ask t) = Min (fst ` set (ask_levels t)) \<and>
          get_orders (best_bid t) = queue_at True (get_price (best_bid t)) t \<and>
          get_orders (best_ask t) = queue_at False (get_price (best_ask t)) t \<and>
          get_orders (best_bid t) \<noteq> [] \<and> get_orders (best_ask t) \<noteq> [] \<and>
          execute_matching t = execute_matching t' \<and>
          book_wf t' \<and>
          queue_at sd p t' =
            (if sd \<and> p = get_price (best_bid t) \<and> active_orders t' bid_id = None
                \<or> \<not> sd \<and> p = get_price (best_ask t) \<and> active_orders t' ask_id = None
             then tl (queue_at sd p t) else queue_at sd p t)"
    unfolding Let_def
    using best_bid_max [OF wf nb] best_ask_min [OF wf na] bb(3,4) ba(3,4) it(1) it(4) [of sd p]
    by simp
qed

theorem fifo_order_preserved_witness:
  "reachable book_fifo \<and>
   queue_at True (201 / 4) book_fifo = [1, 5] \<and>
   (\<exists>s'. perform (AddOrder sell6) book_fifo = Some s' \<and>
      queue_at True (201 / 4) s' = [5] \<and>
      (\<exists>new. [5 :: u64] = filter (\<lambda>i. i \<in> set [5]) [1, 5] @ new \<and> set new \<inter> set [1, 5] = {})) \<and>
   book_wf book_crossed \<and> bid_levels book_crossed \<noteq> [] \<and> ask_levels book_crossed \<noteq> [] \<and>
   \<not> get_price (best_bid book_crossed) < get_price (best_ask book_crossed) \<and>
   hd (get_orders (best_bid book_crossed)) = 2 \<and> hd (get_orders (best_ask book_crossed)) = 3 \<and>
   queue_at False (201 / 4) book_crossed = [3] \<and>
   active_orders (process_match 2 3 book_crossed) 3 = None \<and>
   queue_at False (201 / 4) (process_match 2 3 book_crossed) = tl [3]"
proof -
  have q: "queue_at True (201 / 4) book_fifo = [1, 5]"
    by (simp add: book_fifo_def queue_at_def fetch_side_def map_find_def get_orders_def)
  obtain s' where s': "perform (AddOrder sell6) book_fifo = Some s'"
    "queue_at True (201 / 4) s' = [5]"
  proof -
    have "\<exists>s'. perform (AddOrder sell6) book_fifo = Some s' \<and> queue_at True (201 / 4) s' = [5]"
      by (simp add: example_defs buy5_def sell6_def book_fifo_def ops_defs queue_at_def
          execute_matching.simps)
    then show ?thesis using that by blast
  qed
  have c: "bid_levels book_crossed \<noteq> []" "ask_levels book_crossed \<noteq> []"
    "\<not> get_price (best_bid book_crossed) < get_price (best_ask book_crossed)"
    "hd (get_orders (best_bid book_crossed)) = 2" "hd (get_orders (best_ask book_crossed)) = 3"
    "queue_at False (201 / 4) book_crossed = [3]"
    "get_price (best_ask book_crossed) = 201 / 4"
    by (simp_all add: book_crossed_def best_bid_def best_ask_def get_price_def get_orders_def
        queue_at_def fetch_side_def map_find_def)
  have gone: "active_orders (process_match 2 3 book_crossed) 3 = None"
    by (simp add: example_defs ops_defs)
  note th = fifo_order_preserved [of book_fifo "AddOrder sell6" s' True "201 / 4" book_crossed]
  note th2 = fifo_order_preserved [of book_fifo "AddOrder sell6" s' False "201 / 4" book_crossed]
  have "\<exists>new. [5 :: u64] = filter (\<lambda>i. i \<in> set [5]) [1, 5] @ new \<and> set new \<inter> set [1, 5] = {}"
    using th reachable_fifo s' q by simp
  moreover have "queue_at False (201 / 4) (process_match 2 3 book_crossed) = tl [3]"
    using th2 wf_crossed c gone by (simp add: Let_def)
  ultimately show ?thesis
    using reachable_fifo q s' wf_crossed c gone by simp
qed

end
